theory Spec2Isabelle
  imports Complex_Main
begin

section \<open>Data model\<close>

text \<open>
  The source is one Python module, \<^verbatim>\<open>custom_tool.py\<close>: the class
  \<^verbatim>\<open>DocumentSearchTool\<close> (constructor, \<^verbatim>\<open>_upload_document\<close>,
  \<^verbatim>\<open>_create_bucket\<close>, \<^verbatim>\<open>_run\<close>) and the function \<^verbatim>\<open>split_pdf\<close>.
  Everything the module does outside its own control flow is a call to a collaborator:
  the file system (\<^verbatim>\<open>os.path.getsize\<close>), the PDF library (\<^verbatim>\<open>pymupdf\<close>) and
  the remote service client (\<^verbatim>\<open>groundx\<close>). Each such call is recorded, in program
  order, in a trace of events; every exception a collaborator can raise is a value of
  type \<open>error\<close>, and it propagates as it does in Python (nothing in the module catches).
\<close>

datatype error =
    FileNotFoundError
  | FileDataError
  | ValueError
  | ApiError string

text \<open>The argument of \<^verbatim>\<open>client.ingest\<close>: one \<^verbatim>\<open>groundx.Document\<close>.\<close>

datatype document =
  Document (d_bucket_id: int) (d_file_name: string) (d_file_path: string)
    (d_file_type: string) (d_search_data: "(string \<times> string) list")

datatype event =
    BucketsCreate string
  | GetSize string
  | Print string
  | PdfOpen string
  | PdfSave string
  | Ingest document
  | GetProcessingStatus string
  | SearchContent int string int int

text \<open>
  A file has a byte size and, when it is a readable PDF, its pages in order. The type of
  a page is left open.
\<close>

record 'p pdf_file =
  fsize :: nat
  fdoc :: "'p list option"

record 'p world =
  trace :: "event list"
  files :: "string \<rightharpoonup> 'p pdf_file"

text \<open>
  The remote service as the client sees it. A response may depend on everything that
  happened before the request (the trace up to it), so statuses may change between two
  requests; a response is either an exception (\<open>Inl\<close>) or the field the source reads
  from it (\<^verbatim>\<open>response.bucket.bucket_id\<close>, \<^verbatim>\<open>ingest.ingest.process_id\<close>,
  \<^verbatim>\<open>status_response.ingest.status\<close>, the \<^verbatim>\<open>text\<close> of each of
  \<^verbatim>\<open>search_response.search.results\<close>).
\<close>

record groundx =
  buckets_create :: "event list \<Rightarrow> string \<Rightarrow> error + int"
  ingest :: "event list \<Rightarrow> document \<Rightarrow> error + string"
  get_processing_status_by_id :: "event list \<Rightarrow> string \<Rightarrow> error + string"
  search_content :: "event list \<Rightarrow> int \<Rightarrow> string \<Rightarrow> int \<Rightarrow> int \<Rightarrow> error + string list"

text \<open>The fields of a \<^verbatim>\<open>DocumentSearchTool\<close> instance.\<close>

record tool =
  file_path :: string
  client :: groundx
  bucket_id :: int
  pdf_parts :: "string list"
  process_ids :: "string list"

section \<open>Python built-ins used by the module\<close>

text \<open>\<^verbatim>\<open>range(start, stop, step)\<close>: \<^verbatim>\<open>ValueError\<close> when the step is zero.\<close>

function range_pos :: "int \<Rightarrow> int \<Rightarrow> int \<Rightarrow> int list" where
  "range_pos i stop step =
     (if 0 < step \<and> i < stop then i # range_pos (i + step) stop step else [])"
  by pat_completeness auto
termination
  by (relation "measure (\<lambda>(i, stop, step). nat (stop - i))") auto

function range_neg :: "int \<Rightarrow> int \<Rightarrow> int \<Rightarrow> int list" where
  "range_neg i stop step =
     (if step < 0 \<and> stop < i then i # range_neg (i + step) stop step else [])"
  by pat_completeness auto
termination
  by (relation "measure (\<lambda>(i, stop, step). nat (i - stop))") auto

definition py_range :: "int \<Rightarrow> int \<Rightarrow> int \<Rightarrow> error + int list" where
  "py_range start stop step =
     (if step = 0 then Inl ValueError
      else if 0 < step then Inr (range_pos start stop step)
      else Inr (range_neg start stop step))"

text \<open>\<^verbatim>\<open>str(i)\<close> of an integer, as the f-string \<^verbatim>\<open>f"split_{i}.pdf"\<close> formats it.\<close>

definition digit_char :: "nat \<Rightarrow> char" where
  "digit_char d = ''0123456789'' ! d"

function str_nat :: "nat \<Rightarrow> string" where
  "str_nat n = (if n < 10 then [digit_char n] else str_nat (n div 10) @ [digit_char (n mod 10)])"
  by pat_completeness auto
termination
  by (relation "measure id") auto

definition str_int :: "int \<Rightarrow> string" where
  "str_int i = (if i < 0 then CHR ''-'' # str_nat (nat (- i)) else str_nat (nat i))"

text \<open>\<^verbatim>\<open>sep.join(xs)\<close>.\<close>

fun py_join :: "string \<Rightarrow> string list \<Rightarrow> string" where
  "py_join sep [] = []"
| "py_join sep [x] = x"
| "py_join sep (x # y # ys) = x @ sep @ py_join sep (y # ys)"

text \<open>\<^verbatim>\<open>os.path.basename\<close> (POSIX): what follows the last slash.\<close>

definition basename :: "string \<Rightarrow> string" where
  "basename p = rev (takeWhile (\<lambda>c. c \<noteq> CHR ''/'') (rev p))"

section \<open>File system and PDF library\<close>

definition getsize :: "string \<Rightarrow> 'p world \<Rightarrow> 'p world \<times> (error + nat)" where
  "getsize p w =
     (w\<lparr>trace := trace w @ [GetSize p]\<rparr>,
      case files w p of None \<Rightarrow> Inl FileNotFoundError | Some f \<Rightarrow> Inr (fsize f))"

text \<open>
  \<^verbatim>\<open>pymupdf.open(path)\<close>: the pages of the document are those the file holds when it
  is opened.
\<close>

definition pymupdf_open :: "string \<Rightarrow> 'p world \<Rightarrow> 'p world \<times> (error + 'p list)" where
  "pymupdf_open p w =
     (w\<lparr>trace := trace w @ [PdfOpen p]\<rparr>,
      case files w p of
        None \<Rightarrow> Inl FileNotFoundError
      | Some f \<Rightarrow> (case fdoc f of None \<Rightarrow> Inl FileDataError | Some d \<Rightarrow> Inr d))"

text \<open>
  \<^verbatim>\<open>part_doc.insert_pdf(doc, from_page=j, to_page=j)\<close> appends page \<open>j\<close> of
  \<open>doc\<close> to \<open>part_doc\<close>. What the library does for a page number outside the
  document is not in the source; the model makes it a failure, and
  \<open>copy_pages_window\<close> below shows that \<open>split_pdf\<close> never gets there.
\<close>

definition insert_pdf :: "'p list \<Rightarrow> 'p list \<Rightarrow> int \<Rightarrow> error + 'p list" where
  "insert_pdf part_doc doc j =
     (if 0 \<le> j \<and> j < int (length doc) then Inr (part_doc @ [doc ! nat j]) else Inl ValueError)"

text \<open>
  \<^verbatim>\<open>part_doc.save(path)\<close>: the library refuses to save a document with no page
  (\<^verbatim>\<open>ValueError\<close>). The byte size of the written file is what the encoder makes
  of the pages, a parameter \<open>sz\<close>.
\<close>

definition pymupdf_save ::
  "('p list \<Rightarrow> nat) \<Rightarrow> 'p list \<Rightarrow> string \<Rightarrow> 'p world \<Rightarrow> 'p world \<times> (error + unit)" where
  "pymupdf_save sz d p w =
     (if d = [] then (w, Inl ValueError)
      else (w\<lparr>trace := trace w @ [PdfSave p],
               files := (files w)(p \<mapsto> \<lparr>fsize = sz d, fdoc = Some d\<rparr>)\<rparr>, Inr ()))"

section \<open>split\_pdf\<close>

definition part_path :: "int \<Rightarrow> string" where
  "part_path i = ''split_'' @ str_int i @ ''.pdf''"

text \<open>The inner loop: \<^verbatim>\<open>for j in range(i, min(i + max_pages, len(doc)))\<close>.\<close>

fun copy_pages :: "'p list \<Rightarrow> int list \<Rightarrow> 'p list \<Rightarrow> error + 'p list" where
  "copy_pages doc [] part_doc = Inr part_doc"
| "copy_pages doc (j # js) part_doc =
     (case insert_pdf part_doc doc j of
        Inl e \<Rightarrow> Inl e
      | Inr part_doc' \<Rightarrow> copy_pages doc js part_doc')"

text \<open>The outer loop: \<^verbatim>\<open>for i in range(0, len(doc), max_pages)\<close>.\<close>

fun split_loop ::
  "('p list \<Rightarrow> nat) \<Rightarrow> 'p list \<Rightarrow> int \<Rightarrow> int list \<Rightarrow> string list \<Rightarrow> 'p world
     \<Rightarrow> 'p world \<times> (error + string list)" where
  "split_loop sz doc max_pages [] parts w = (w, Inr parts)"
| "split_loop sz doc max_pages (i # is) parts w =
     (case copy_pages doc (range_pos i (min (i + max_pages) (int (length doc))) 1) [] of
        Inl e \<Rightarrow> (w, Inl e)
      | Inr part_doc \<Rightarrow>
          (case pymupdf_save sz part_doc (part_path i) w of
             (w', Inl e) \<Rightarrow> (w', Inl e)
           | (w', Inr _) \<Rightarrow> split_loop sz doc max_pages is (parts @ [part_path i]) w'))"

definition split_pdf ::
  "('p list \<Rightarrow> nat) \<Rightarrow> string \<Rightarrow> int \<Rightarrow> 'p world \<Rightarrow> 'p world \<times> (error + string list)" where
  "split_pdf sz input_path max_pages w =
     (case pymupdf_open input_path w of
        (w1, Inl e) \<Rightarrow> (w1, Inl e)
      | (w1, Inr doc) \<Rightarrow>
          (case py_range 0 (int (length doc)) max_pages of
             Inl e \<Rightarrow> (w1, Inl e)
           | Inr starts \<Rightarrow> split_loop sz doc max_pages starts [] w1))"

section \<open>DocumentSearchTool\<close>

text \<open>\<^verbatim>\<open>_create_bucket\<close>: one request, with the fixed name.\<close>

definition create_bucket :: "groundx \<Rightarrow> 'p world \<Rightarrow> 'p world \<times> (error + int)" where
  "create_bucket c w =
     (w\<lparr>trace := trace w @ [BucketsCreate ''agentic_rag'']\<rparr>,
      buckets_create c (trace w) ''agentic_rag'')"

text \<open>\<^verbatim>\<open>_upload_document\<close>: the descriptor it builds, and the ingest request.\<close>

definition mk_document :: "int \<Rightarrow> string \<Rightarrow> document" where
  "mk_document b fp = Document b (basename fp) fp ''pdf'' [(''key'', ''value'')]"

definition upload_document ::
  "groundx \<Rightarrow> int \<Rightarrow> string \<Rightarrow> 'p world \<Rightarrow> 'p world \<times> (error + string)" where
  "upload_document c b fp w =
     (w\<lparr>trace := trace w @ [Ingest (mk_document b fp)]\<rparr>,
      ingest c (trace w) (mk_document b fp))"

text \<open>
  The list comprehension
  \<^verbatim>\<open>[self._upload_document(part) for part in self.pdf_parts]\<close>.
\<close>

fun upload_all ::
  "groundx \<Rightarrow> int \<Rightarrow> string list \<Rightarrow> 'p world \<Rightarrow> 'p world \<times> (error + string list)" where
  "upload_all c b [] w = (w, Inr [])"
| "upload_all c b (part # parts) w =
     (case upload_document c b part w of
        (w', Inl e) \<Rightarrow> (w', Inl e)
      | (w', Inr pid) \<Rightarrow>
          (case upload_all c b parts w' of
             (w'', Inl e) \<Rightarrow> (w'', Inl e)
           | (w'', Inr pids) \<Rightarrow> (w'', Inr (pid # pids))))"

text \<open>
  \<^verbatim>\<open>__init__\<close>. The client handle is built locally and sends nothing; the first
  request is the bucket creation. The result is the world after the call and either the
  exception that ended it or the instance.
\<close>

definition too_large_message :: string where
  "too_large_message = ''PDF is too large! Splitting into smaller parts...''"

definition init ::
  "groundx \<Rightarrow> ('p list \<Rightarrow> nat) \<Rightarrow> string \<Rightarrow> 'p world \<Rightarrow> 'p world \<times> (error + tool)" where
  "init c sz fp w =
     (case create_bucket c w of
        (w1, Inl e) \<Rightarrow> (w1, Inl e)
      | (w1, Inr b) \<Rightarrow>
          (case getsize fp w1 of
             (w2, Inl e) \<Rightarrow> (w2, Inl e)
           | (w2, Inr n) \<Rightarrow>
               (case (if 10485760 < n
                      then split_pdf sz fp 10 (w2\<lparr>trace := trace w2 @ [Print too_large_message]\<rparr>)
                      else (w2, Inr [fp])) of
                  (w3, Inl e) \<Rightarrow> (w3, Inl e)
                | (w3, Inr parts) \<Rightarrow>
                    (case upload_all c b parts w3 of
                       (w4, Inl e) \<Rightarrow> (w4, Inl e)
                     | (w4, Inr pids) \<Rightarrow>
                         (w4, Inr \<lparr>file_path = fp, client = c, bucket_id = b,
                                   pdf_parts = parts, process_ids = pids\<rparr>)))))"

text \<open>
  \<^verbatim>\<open>_run\<close>. The loop either returns from inside (the fixed message) or runs to
  its end with the collected \<open>results\<close>.
\<close>

datatype loop_exit = Return string | Done "string list"

definition still_processing :: string where
  "still_processing = ''Document is still being processed...''"

definition no_information :: string where
  "no_information = ''No relevant information found.''"

definition delimiter :: string where
  "delimiter = CHR 0x0A # ''____'' @ [CHR 0x0A]"

fun run_loop ::
  "tool \<Rightarrow> string \<Rightarrow> string list \<Rightarrow> string list \<Rightarrow> 'p world
     \<Rightarrow> 'p world \<times> (error + loop_exit)" where
  "run_loop t query [] results w = (w, Inr (Done results))"
| "run_loop t query (process_id # rest) results w =
     (case get_processing_status_by_id (client t) (trace w) process_id of
        Inl e \<Rightarrow> (w\<lparr>trace := trace w @ [GetProcessingStatus process_id]\<rparr>, Inl e)
      | Inr status \<Rightarrow>
          if status \<noteq> ''complete''
          then (w\<lparr>trace := trace w @ [GetProcessingStatus process_id]\<rparr>,
                Inr (Return still_processing))
          else
            (case search_content (client t)
                    (trace w @ [GetProcessingStatus process_id]) (bucket_id t) query 10 2 of
               Inl e \<Rightarrow>
                 (w\<lparr>trace := trace w @ [GetProcessingStatus process_id,
                                          SearchContent (bucket_id t) query 10 2]\<rparr>, Inl e)
             | Inr texts \<Rightarrow>
                 run_loop t query rest (results @ texts)
                   (w\<lparr>trace := trace w @ [GetProcessingStatus process_id,
                                            SearchContent (bucket_id t) query 10 2]\<rparr>)))"

text \<open>
  The method receives the instance and hands it back: \<open>fst\<close> of the result is the
  instance after the call.
\<close>

definition run :: "tool \<Rightarrow> string \<Rightarrow> 'p world \<Rightarrow> tool \<times> 'p world \<times> (error + string)" where
  "run t query w =
     (case run_loop t query (process_ids t) [] w of
        (w', Inl e) \<Rightarrow> (t, w', Inl e)
      | (w', Inr (Return s)) \<Rightarrow> (t, w', Inr s)
      | (w', Inr (Done results)) \<Rightarrow>
          (t, w', Inr (if results \<noteq> [] then py_join delimiter results else no_information)))"

section \<open>Notions the properties are stated with\<close>

text \<open>The pages of the file at a path, when it is a readable PDF.\<close>

definition pages_at :: "'p world \<Rightarrow> string \<Rightarrow> 'p list option" where
  "pages_at w p = (case files w p of None \<Rightarrow> None | Some f \<Rightarrow> fdoc f)"

text \<open>The window of at most \<open>W\<close> pages that starts at page index \<open>i\<close>.\<close>

definition page_window :: "'p list \<Rightarrow> int \<Rightarrow> int \<Rightarrow> 'p list" where
  "page_window doc i W = take (nat W) (drop (nat i) doc)"

text \<open>\<open>ceil(P/W)\<close>, and the starting indices \<open>0, W, 2W, \<dots>\<close> of that many windows.\<close>

definition n_parts :: "nat \<Rightarrow> int \<Rightarrow> nat" where
  "n_parts P W = nat \<lceil>real P / real_of_int W\<rceil>"

definition window_starts :: "nat \<Rightarrow> int \<Rightarrow> int list" where
  "window_starts P W = map (\<lambda>k. int k * W) [0..<n_parts P W]"

text \<open>What saving the part that starts at \<open>i\<close> does to the file system.\<close>

definition write_part ::
  "('p list \<Rightarrow> nat) \<Rightarrow> 'p list \<Rightarrow> int \<Rightarrow> int \<Rightarrow> (string \<rightharpoonup> 'p pdf_file)
     \<Rightarrow> (string \<rightharpoonup> 'p pdf_file)" where
  "write_part sz doc W i fs =
     fs(part_path i \<mapsto> \<lparr>fsize = sz (page_window doc i W), fdoc = Some (page_window doc i W)\<rparr>)"

text \<open>Reading a decimal numeral back, to tell part names apart.\<close>

definition nat_of_str :: "string \<Rightarrow> nat" where
  "nat_of_str s = foldl (\<lambda>a c. 10 * a + (of_char c - 48)) 0 s"

text \<open>
  The two requests \<^verbatim>\<open>_run\<close> makes for one job, the trace just before the status
  request of job \<open>k\<close> and just before its search request, and the fragments that
  search returns.
\<close>

definition job_events :: "tool \<Rightarrow> string \<Rightarrow> string \<Rightarrow> event list" where
  "job_events t q p = [GetProcessingStatus p, SearchContent (bucket_id t) q 10 2]"

definition status_history :: "tool \<Rightarrow> string \<Rightarrow> event list \<Rightarrow> nat \<Rightarrow> event list" where
  "status_history t q h k = h @ concat (map (job_events t q) (take k (process_ids t)))"

definition search_history :: "tool \<Rightarrow> string \<Rightarrow> event list \<Rightarrow> nat \<Rightarrow> event list" where
  "search_history t q h k = status_history t q h k @ [GetProcessingStatus (process_ids t ! k)]"

definition fragments_of :: "tool \<Rightarrow> string \<Rightarrow> event list \<Rightarrow> nat \<Rightarrow> string list" where
  "fragments_of t q h k =
     (case search_content (client t) (search_history t q h k) (bucket_id t) q 10 2 of
        Inl e \<Rightarrow> [] | Inr texts \<Rightarrow> texts)"

definition collected :: "tool \<Rightarrow> string \<Rightarrow> event list \<Rightarrow> string list" where
  "collected t q h = concat (map (fragments_of t q h) [0..<length (process_ids t)])"

fun is_search :: "event \<Rightarrow> bool" where
  "is_search (SearchContent b q n v) = True"
| "is_search e = False"

text \<open>The ingest requests for a list of parts, in order.\<close>

definition upload_events :: "int \<Rightarrow> string list \<Rightarrow> event list" where
  "upload_events b parts = map (\<lambda>p. Ingest (mk_document b p)) parts"

text \<open>
  The spec's wording of the order of requests in a query: the status of every recorded
  job is fetched, and every search request comes after the status requests of all jobs.
\<close>

definition spec_statuses_before_searches :: "string list \<Rightarrow> event list \<Rightarrow> bool" where
  "spec_statuses_before_searches pids es =
     (list_all (\<lambda>p. GetProcessingStatus p \<in> set es) pids \<and>
      list_all (\<lambda>i. is_search (es ! i) \<longrightarrow>
                  list_all (\<lambda>p. GetProcessingStatus p \<in> set (take i es)) pids)
        [0..<length es])"

section \<open>Example inputs\<close>

text \<open>
  A file system holding one file, \<^verbatim>\<open>big.pdf\<close>, of a given byte size and page count;
  the pages are numbered.
\<close>

definition ex_pages :: "nat \<Rightarrow> nat list" where
  "ex_pages n = [0..<n]"

definition ex_world :: "nat \<Rightarrow> nat \<Rightarrow> nat world" where
  "ex_world bytes n =
     \<lparr>trace = [], files = [''big.pdf'' \<mapsto> \<lparr>fsize = bytes, fdoc = Some (ex_pages n)\<rparr>]\<rparr>"

text \<open>
  A service that creates bucket 7, names each job after the uploaded file, reports every
  job complete except one called \<^verbatim>\<open>pending\<close>, and answers every search with the two
  fragments \<^verbatim>\<open>A\<close> and \<^verbatim>\<open>B\<close>; and an instance over it with given job names.
\<close>

definition ex_client :: groundx where
  "ex_client =
     \<lparr>buckets_create = (\<lambda>h name. Inr 7),
      ingest = (\<lambda>h d. Inr (d_file_name d)),
      get_processing_status_by_id =
        (\<lambda>h p. Inr (if p = ''pending'' then ''processing'' else ''complete'')),
      search_content = (\<lambda>h b q n v. Inr [''A'', ''B''])\<rparr>"

definition ex_tool :: "string list \<Rightarrow> tool" where
  "ex_tool names =
     \<lparr>file_path = ''big.pdf'', client = ex_client, bucket_id = 7,
      pdf_parts = names, process_ids = names\<rparr>"

text \<open>The same instance with one job, over a service whose searches return no fragment.\<close>

definition ex_silent_tool :: tool where
  "ex_silent_tool =
     (ex_tool [''job''])\<lparr>client := ex_client\<lparr>search_content := (\<lambda>h b q n v. Inr [])\<rparr>\<rparr>"

section \<open>Python built-ins: facts\<close>

declare range_pos.simps [simp del] range_neg.simps [simp del] str_nat.simps [simp del]

lemma range_pos_unit: "range_pos i m 1 = [i..m - 1]"
proof (induction i m "1::int" rule: range_pos.induct)
  case (1 i stop)
  show ?case
  proof (cases "i < stop")
    case True
    then have "[i..stop - 1] = i # [i + 1..stop - 1]" by (simp add: upto_rec1)
    with 1 True show ?thesis by (simp add: range_pos.simps[of i stop 1])
  next
    case False
    then show ?thesis by (simp add: range_pos.simps[of i stop 1])
  qed
qed

lemma range_pos_eq:
  "0 < step \<Longrightarrow> range_pos i stop step = map (\<lambda>k. i + int k * step) [0..<nat ((stop - i + step - 1) div step)]"
proof (induction i stop step rule: range_pos.induct)
  case (1 i stop step)
  show ?case
  proof (cases "i < stop")
    case True
    have pos: "0 < (stop - i + step - 1) div step"
      using True 1(2) by (simp add: pos_imp_zdiv_pos_iff)
    have d: "(stop - (i + step) + step - 1) div step = (stop - i + step - 1) div step - 1"
    proof -
      have "stop - i + step - 1 = (stop - (i + step) + step - 1) + 1 * step" by simp
      then have "(stop - i + step - 1) div step = (stop - (i + step) + step - 1) div step + 1"
        using 1(2) by (metis div_add_self2 less_irrefl mult.commute mult.right_neutral add.commute)
      then show ?thesis by simp
    qed
    obtain n where n: "nat ((stop - i + step - 1) div step) = Suc n"
      using pos by (metis Suc_pred zero_less_nat_eq)
    have n': "nat ((stop - (i + step) + step - 1) div step) = n"
      using n d by simp
    have "range_pos i stop step = i # range_pos (i + step) stop step"
      using True 1(2) by (simp add: range_pos.simps[of i stop step])
    also have "\<dots> = i # map (\<lambda>k. (i + step) + int k * step) [0..<n]"
      using 1(1) True 1(2) n' by simp
    also have "\<dots> = map (\<lambda>k. i + int k * step) [0..<Suc n]"
      by (simp add: upt_rec[of 0 "Suc n"] map_Suc_upt[symmetric] algebra_simps del: upt_Suc)
    finally show ?thesis using n by simp
  next
    case False
    then have "\<not> 0 < (stop - i + step - 1) div step"
      using 1(2) by (simp add: pos_imp_zdiv_pos_iff)
    then show ?thesis using False by (simp add: range_pos.simps[of i stop step])
  qed
qed

lemma copy_pages_upto:
  "0 \<le> i \<Longrightarrow> m \<le> int (length doc) \<Longrightarrow>
   copy_pages doc [i..m - 1] acc = Inr (acc @ take (nat (m - i)) (drop (nat i) doc))"
proof (induction "nat (m - i)" arbitrary: i acc)
  case 0
  then have "[i..m - 1] = []" by simp
  with 0 show ?case by simp
next
  case (Suc n)
  then have lt: "i < m" by linarith
  then have u: "[i..m - 1] = i # [i + 1..m - 1]" by (simp add: upto_rec1)
  have n: "n = nat (m - (i + 1))" using Suc(2) by linarith
  have ins: "insert_pdf acc doc i = Inr (acc @ [doc ! nat i])"
    using Suc.prems lt by (simp add: insert_pdf_def)
  have IH: "copy_pages doc [i + 1..m - 1] (acc @ [doc ! nat i]) =
      Inr ((acc @ [doc ! nat i]) @ take (nat (m - (i + 1))) (drop (nat (i + 1)) doc))"
    using Suc(1)[OF n, of "acc @ [doc ! nat i]"] Suc.prems by simp
  have len: "nat i < length doc" using Suc.prems lt by linarith
  have "take (nat (m - i)) (drop (nat i) doc) = doc ! nat i # take (nat (m - (i + 1))) (drop (nat (i + 1)) doc)"
  proof -
    have "drop (nat i) doc = doc ! nat i # drop (Suc (nat i)) doc"
      using len by (simp add: Cons_nth_drop_Suc)
    moreover have "nat (m - i) = Suc (nat (m - (i + 1)))" using lt by linarith
    moreover have "Suc (nat i) = nat (i + 1)" using Suc.prems by linarith
    ultimately show ?thesis by simp
  qed
  then show ?case using u ins IH by simp
qed

lemma copy_pages_window:
  assumes "0 \<le> i" "0 \<le> W"
  shows "copy_pages doc (range_pos i (min (i + W) (int (length doc))) 1) [] =
         Inr (take (nat W) (drop (nat i) doc))"
proof -
  let ?m = "min (i + W) (int (length doc))"
  have "copy_pages doc [i..?m - 1] [] = Inr ([] @ take (nat (?m - i)) (drop (nat i) doc))"
    using assms by (intro copy_pages_upto) simp_all
  moreover have "take (nat (?m - i)) (drop (nat i) doc) = take (nat W) (drop (nat i) doc)"
  proof (cases "i + W \<le> int (length doc)")
    case True
    then show ?thesis by (simp add: min_def)
  next
    case False
    then have "?m = int (length doc)" by simp
    moreover have "length (drop (nat i) doc) \<le> nat W" using False assms by auto
    moreover have "length (drop (nat i) doc) \<le> nat (int (length doc) - i)" using assms by auto
    ultimately show ?thesis by simp
  qed
  ultimately show ?thesis by (simp add: range_pos_unit)
qed




lemma digit_cases: "d < 10 \<Longrightarrow> d = 0 \<or> d = 1 \<or> d = 2 \<or> d = 3 \<or> d = 4 \<or> d = 5 \<or> d = 6 \<or> d = 7 \<or> d = 8 \<or> d = (9::nat)"
  by arith

lemma of_char_digit: "d < 10 \<Longrightarrow> of_char (digit_char d) = 48 + d"
  using digit_cases[of d] by (auto simp: digit_char_def)

lemma digit_char_in: "d < 10 \<Longrightarrow> digit_char d \<in> set ''0123456789''"
  using digit_cases[of d] by (auto simp: digit_char_def)

lemma nat_of_str_str_nat: "nat_of_str (str_nat n) = n"
proof (induction n rule: str_nat.induct)
  case (1 n)
  show ?case
  proof (cases "n < 10")
    case True
    then show ?thesis by (simp add: str_nat.simps[of n] nat_of_str_def of_char_digit)
  next
    case False
    then have "nat_of_str (str_nat (n div 10)) = n div 10" using 1 by simp
    then show ?thesis using False
      by (simp add: str_nat.simps[of n] nat_of_str_def of_char_digit)
  qed
qed

lemma str_nat_inj: "str_nat m = str_nat n \<Longrightarrow> m = n"
  by (metis nat_of_str_str_nat)

lemma str_nat_digits: "set (str_nat n) \<subseteq> set ''0123456789''"
proof (induction n rule: str_nat.induct)
  case (1 n)
  show ?case
  proof (cases "n < 10")
    case True
    then show ?thesis using digit_char_in[of n] by (simp add: str_nat.simps[of n])
  next
    case False
    then have "set (str_nat (n div 10)) \<subseteq> set ''0123456789''" using 1 by simp
    moreover have "digit_char (n mod 10) \<in> set ''0123456789''" by (rule digit_char_in) simp
    ultimately show ?thesis using False by (simp add: str_nat.simps[of n])
  qed
qed

lemma str_nat_no_minus: "CHR ''-'' \<notin> set (str_nat n)"
  using str_nat_digits[of n] by auto

lemma str_nat_not_minus: "str_nat k \<noteq> CHR ''-'' # xs"
proof
  assume "str_nat k = CHR ''-'' # xs"
  then have "CHR ''-'' \<in> set (str_nat k)" by simp
  then show False using str_nat_no_minus[of k] by simp
qed

lemma str_int_inj: "str_int i = str_int j \<Longrightarrow> i = j"
proof -
  assume eq: "str_int i = str_int j"
  consider (nn) "i < 0" "j < 0" | (np) "i < 0" "\<not> j < 0" | (pn) "\<not> i < 0" "j < 0"
    | (pp) "\<not> i < 0" "\<not> j < 0" by blast
  then show ?thesis
  proof cases
    case nn
    with eq have "str_nat (nat (- i)) = str_nat (nat (- j))" by (simp add: str_int_def)
    then have "nat (- i) = nat (- j)" by (rule str_nat_inj)
    with nn show ?thesis by simp
  next
    case np
    with eq have "str_nat (nat j) = CHR ''-'' # str_nat (nat (- i))" by (simp add: str_int_def)
    then show ?thesis using str_nat_not_minus by blast
  next
    case pn
    with eq have "str_nat (nat i) = CHR ''-'' # str_nat (nat (- j))" by (simp add: str_int_def)
    then show ?thesis using str_nat_not_minus by blast
  next
    case pp
    with eq have "str_nat (nat i) = str_nat (nat j)" by (simp add: str_int_def)
    then have "nat i = nat j" by (rule str_nat_inj)
    with pp show ?thesis by simp
  qed
qed

lemma part_path_inj: "part_path i = part_path j \<Longrightarrow> i = j"
proof -
  assume "part_path i = part_path j"
  then have "str_int i = str_int j" by (simp add: part_path_def)
  then show ?thesis by (rule str_int_inj)
qed

lemma str_nat_no_slash: "CHR ''/'' \<notin> set (str_nat n)"
  using str_nat_digits[of n] by auto

lemma part_path_no_slash: "CHR ''/'' \<notin> set (part_path i)"
proof (cases "i < 0")
  case True
  then show ?thesis using str_nat_no_slash[of "nat (- i)"] by (simp add: part_path_def str_int_def)
next
  case False
  then show ?thesis using str_nat_no_slash[of "nat i"] by (simp add: part_path_def str_int_def)
qed




lemma fold_write_other:
  "p \<notin> part_path ` set xs \<Longrightarrow> fold (write_part sz doc W) xs fs0 p = fs0 p"
  by (induction xs arbitrary: fs0) (auto simp: write_part_def)

lemma fold_write_hit:
  "i \<in> set xs \<Longrightarrow> fold (write_part sz doc W) xs fs0 (part_path i) =
     Some \<lparr>fsize = sz (page_window doc i W), fdoc = Some (page_window doc i W)\<rparr>"
proof (induction xs arbitrary: fs0)
  case Nil
  then show ?case by simp
next
  case (Cons x xs)
  show ?case
  proof (cases "i \<in> set xs")
    case True
    then show ?thesis using Cons.IH by simp
  next
    case False
    with Cons.prems have ix: "i = x" by simp
    have "part_path i \<notin> part_path ` set xs" using False part_path_inj by blast
    then have "fold (write_part sz doc W) xs (write_part sz doc W x fs0) (part_path i) =
        write_part sz doc W x fs0 (part_path i)"
      by (rule fold_write_other)
    moreover have "write_part sz doc W x fs0 (part_path x) =
        Some \<lparr>fsize = sz (page_window doc x W), fdoc = Some (page_window doc x W)\<rparr>"
      by (simp add: write_part_def)
    ultimately show ?thesis using ix by simp
  qed
qed

lemma page_window_nonempty:
  "1 \<le> W \<Longrightarrow> 0 \<le> i \<Longrightarrow> i < int (length doc) \<Longrightarrow> page_window doc i W \<noteq> []"
  by (auto simp: page_window_def)

lemma split_loop_ok:
  assumes W: "1 \<le> W" and st: "\<forall>i\<in>set starts. 0 \<le> i \<and> i < int (length doc)"
  shows "split_loop sz doc W starts parts w =
    (w\<lparr>trace := trace w @ map (\<lambda>i. PdfSave (part_path i)) starts,
       files := fold (write_part sz doc W) starts (files w)\<rparr>,
     Inr (parts @ map part_path starts))"
  using st
proof (induction starts arbitrary: parts w)
  case Nil
  then show ?case by simp
next
  case (Cons i starts)
  have i: "0 \<le> i" "i < int (length doc)" using Cons.prems by auto
  have cp: "copy_pages doc (range_pos i (min (i + W) (int (length doc))) 1) [] =
      Inr (page_window doc i W)"
    using copy_pages_window[of i W doc] i W by (simp add: page_window_def)
  have ne: "page_window doc i W \<noteq> []" using page_window_nonempty[OF W i] .
  have rest: "\<forall>i\<in>set starts. 0 \<le> i \<and> i < int (length doc)" using Cons.prems by simp
  show ?case
    by (simp add: cp ne pymupdf_save_def Cons.IH[OF rest] write_part_def[symmetric])
qed




lemma div_up:
  assumes W: "0 < (W::int)"
  shows "- ((- a) div W) = (a + W - 1) div W"
proof -
  define q where "q = a div W"
  define r where "r = a mod W"
  have a: "a = r + q * W" and r: "0 \<le> r" "r < W"
    using W by (simp_all add: q_def r_def)
  have nz: "W \<noteq> 0" using W by simp
  show ?thesis
  proof (cases "r = 0")
    case True
    have e1: "- a = 0 + (- q) * W" using a True by simp
    have "(- a) div W = (0 + (- q) * W) div W" by (simp only: e1)
    also have "\<dots> = - q + 0 div W" using nz by (rule div_mult_self1)
    finally have l: "(- a) div W = - q" by simp
    have e2: "a + W - 1 = (W - 1) + q * W" using a True by simp
    have z: "(W - 1) div W = 0" using W by (simp add: div_pos_pos_trivial)
    have "(a + W - 1) div W = ((W - 1) + q * W) div W" by (simp only: e2)
    also have "\<dots> = q + (W - 1) div W" using nz by (rule div_mult_self1)
    finally have "(a + W - 1) div W = q" using z by simp
    with l show ?thesis by simp
  next
    case False
    have e1: "- a = (W - r) + (- q - 1) * W" using a by (simp add: algebra_simps)
    have z1: "(W - r) div W = 0" using r False by (simp add: div_pos_pos_trivial)
    have "(- a) div W = ((W - r) + (- q - 1) * W) div W" by (simp only: e1)
    also have "\<dots> = (- q - 1) + (W - r) div W" using nz by (rule div_mult_self1)
    finally have l: "(- a) div W = - q - 1" using z1 by simp
    have e2: "a + W - 1 = (r - 1) + (q + 1) * W" using a by (simp add: algebra_simps)
    have z2: "(r - 1) div W = 0" using r False by (simp add: div_pos_pos_trivial)
    have "(a + W - 1) div W = ((r - 1) + (q + 1) * W) div W" by (simp only: e2)
    also have "\<dots> = (q + 1) + (r - 1) div W" using nz by (rule div_mult_self1)
    finally have "(a + W - 1) div W = q + 1" using z2 by simp
    with l show ?thesis by simp
  qed
qed

lemma ceil_div: 
  assumes "0 < (W::int)"
  shows "\<lceil>real P / real_of_int W\<rceil> = (int P + W - 1) div W"
proof -
  have "\<lceil>real_of_int (int P) / real_of_int W\<rceil> = - ((- int P) div W)"
    by (rule ceiling_divide_eq_div)
  then show ?thesis using div_up[OF assms, of "int P"] by simp
qed

section \<open>The windows of split\_pdf\<close>

lemma n_parts_div: "0 < W \<Longrightarrow> int (n_parts P W) = (int P + W - 1) div W"
proof -
  assume W: "0 < W"
  have "0 \<le> (int P + W - 1) div W" using W by (simp add: pos_imp_zdiv_nonneg_iff)
  then show ?thesis using ceil_div[OF W, of P] by (simp add: n_parts_def)
qed

lemma n_parts_bounds:
  assumes W: "0 < W"
  shows "int P \<le> int (n_parts P W) * W" and "int (n_parts P W) * W < int P + W"
proof -
  let ?a = "int P + W - 1"
  have n: "int (n_parts P W) = ?a div W" using W by (rule n_parts_div)
  have eq: "?a = ?a div W * W + ?a mod W" by simp
  have m: "0 \<le> ?a mod W" "?a mod W < W" using W by simp_all
  show "int P \<le> int (n_parts P W) * W" unfolding n using eq m by linarith
  show "int (n_parts P W) * W < int P + W" unfolding n using eq m by linarith
qed

lemma n_parts_nat: "0 < W \<Longrightarrow> n_parts P W = nat ((int P + W - 1) div W)"
  using n_parts_div[of W P] by linarith

lemma range_pos_starts: "0 < W \<Longrightarrow> range_pos 0 (int P) W = window_starts P W"
  using range_pos_eq[of W 0 "int P"] by (simp add: window_starts_def n_parts_nat)

lemma window_starts_nth:
  "k < n_parts P W \<Longrightarrow> window_starts P W ! k = int k * W"
  by (simp add: window_starts_def)

lemma length_window_starts: "length (window_starts P W) = n_parts P W"
  by (simp add: window_starts_def)

lemma window_start_bounds:
  assumes W: "0 < W" and k: "k < n_parts P W"
  shows "0 \<le> int k * W" and "int k * W < int P"
proof -
  show "0 \<le> int k * W" using W by simp
  have "int k + 1 \<le> int (n_parts P W)" using k by simp
  then have "(int k + 1) * W \<le> int (n_parts P W) * W" using W by (simp add: mult_right_mono)
  then show "int k * W < int P" using n_parts_bounds(2)[OF W, of P] by (simp add: algebra_simps)
qed

lemma window_starts_in_range:
  assumes W: "0 < W"
  shows "\<forall>i\<in>set (window_starts P W). 0 \<le> i \<and> i < int P"
  using window_start_bounds[OF W] by (auto simp: window_starts_def)

lemma split_pdf_ok:
  assumes W: "1 \<le> W" and fl: "files w fp = Some f" and pdf: "fdoc f = Some doc"
  shows "split_pdf sz fp W w =
    (w\<lparr>trace := trace w @ PdfOpen fp # map (\<lambda>i. PdfSave (part_path i)) (window_starts (length doc) W),
       files := fold (write_part sz doc W) (window_starts (length doc) W) (files w)\<rparr>,
     Inr (map part_path (window_starts (length doc) W)))"
proof -
  have W0: "0 < W" using W by simp
  have op: "pymupdf_open fp w = (w\<lparr>trace := trace w @ [PdfOpen fp]\<rparr>, Inr doc)"
    using fl pdf by (simp add: pymupdf_open_def)
  have rg: "py_range 0 (int (length doc)) W = Inr (window_starts (length doc) W)"
    using W0 by (simp add: py_range_def range_pos_starts)
  have lp: "split_loop sz doc W (window_starts (length doc) W) [] (w\<lparr>trace := trace w @ [PdfOpen fp]\<rparr>) =
    ((w\<lparr>trace := trace w @ [PdfOpen fp]\<rparr>)\<lparr>trace := trace (w\<lparr>trace := trace w @ [PdfOpen fp]\<rparr>) @ map (\<lambda>i. PdfSave (part_path i)) (window_starts (length doc) W),
       files := fold (write_part sz doc W) (window_starts (length doc) W) (files (w\<lparr>trace := trace w @ [PdfOpen fp]\<rparr>))\<rparr>,
     Inr ([] @ map part_path (window_starts (length doc) W)))"
    using W window_starts_in_range[OF W0, of "length doc"] by (rule split_loop_ok)
  show ?thesis by (simp add: split_pdf_def op rg lp)
qed

lemma length_page_window:
  "0 \<le> i \<Longrightarrow> i \<le> int (length doc) \<Longrightarrow> 0 \<le> W \<Longrightarrow>
   int (length (page_window doc i W)) = min W (int (length doc) - i)"
  by (auto simp: page_window_def min_def)

lemma length_window:
  assumes W: "0 < W" and k: "k < n_parts (length doc) W"
  shows "int (length (page_window doc (int k * W) W)) =
           (if k + 1 < n_parts (length doc) W then W
            else int (length doc) - W * (int (n_parts (length doc) W) - 1))"
    and "1 \<le> length (page_window doc (int k * W) W)"
    and "int (length (page_window doc (int k * W) W)) \<le> W"
proof -
  let ?n = "n_parts (length doc) W"
  let ?P = "int (length doc)"
  have lo: "0 \<le> int k * W" and hi: "int k * W < ?P"
    using window_start_bounds[OF W k] by simp_all
  have len: "int (length (page_window doc (int k * W) W)) = min W (?P - int k * W)"
    using lo hi W by (intro length_page_window) simp_all
  have up: "?P \<le> int ?n * W" using n_parts_bounds(1)[OF W] .
  show "int (length (page_window doc (int k * W) W)) =
           (if k + 1 < ?n then W else ?P - W * (int ?n - 1))"
  proof (cases "k + 1 < ?n")
    case True
    then have "int k + 2 \<le> int ?n" by simp
    then have "(int k + 2) * W \<le> int ?n * W" using W by (simp add: mult_right_mono)
    moreover have "int ?n * W < ?P + W" using n_parts_bounds(2)[OF W] .
    ultimately have "int k * W + W < ?P" by (simp add: algebra_simps)
    then show ?thesis using True len by simp
  next
    case False
    then have kn: "int ?n = int k + 1" using k by simp
    have "?P - int k * W \<le> W" using up kn by (simp add: algebra_simps)
    then show ?thesis using False len kn by (simp add: algebra_simps)
  qed
  show "1 \<le> length (page_window doc (int k * W) W)"
    using len hi W by linarith
  show "int (length (page_window doc (int k * W) W)) \<le> W"
    using len by simp
qed

lemma pages_at_part:
  assumes "i \<in> set starts"
  shows "pages_at (w\<lparr>trace := tr, files := fold (write_part sz doc W) starts fs\<rparr>) (part_path i) =
         Some (page_window doc i W)"
  using fold_write_hit[OF assms, of sz doc W fs] by (simp add: pages_at_def)

lemma ex_world_file:
  "files (ex_world bytes n) ''big.pdf'' = Some \<lparr>fsize = bytes, fdoc = Some (ex_pages n)\<rparr>"
  by (simp add: ex_world_def)

lemma part_path_0: "part_path 0 = ''split_0.pdf''"
  by code_simp

lemma part_path_10: "part_path 10 = ''split_10.pdf''"
  by code_simp

lemma part_path_20: "part_path 20 = ''split_20.pdf''"
  by code_simp

section \<open>Properties of split\_pdf\<close>

text \<open>
  Claim C1. For a readable document with \<open>P\<close> pages and a window size \<open>W \<ge> 1\<close>,
  \<open>split_pdf\<close> returns normally with \<open>ceil(P/W)\<close> parts. Part \<open>k\<close> (counted from 0)
  is a file holding the window of the document that starts at page \<open>k * W\<close>; every part
  but the last holds exactly \<open>W\<close> pages, and the last holds \<open>P - W * (ceil(P/W) - 1)\<close>
  pages, a number between 1 and \<open>W\<close>.
\<close>

theorem split_pdf_part_counts:
  assumes W: "1 \<le> W" and fl: "files w fp = Some f" and pdf: "fdoc f = Some doc"
  shows "\<exists>w' parts. split_pdf sz fp W w = (w', Inr parts) \<and>
     int (length parts) = \<lceil>real (length doc) / real_of_int W\<rceil> \<and>
     (\<forall>k<length parts. \<exists>pages. pages_at w' (parts ! k) = Some pages \<and>
        pages = page_window doc (int k * W) W \<and>
        int (length pages) =
          (if k + 1 < length parts then W
           else int (length doc) - W * (int (length parts) - 1)) \<and>
        1 \<le> length pages \<and> int (length pages) \<le> W)"
proof -
  have W0: "0 < W" using W by simp
  let ?st = "window_starts (length doc) W"
  let ?n = "n_parts (length doc) W"
  let ?w' = "w\<lparr>trace := trace w @ PdfOpen fp # map (\<lambda>i. PdfSave (part_path i)) ?st,
       files := fold (write_part sz doc W) ?st (files w)\<rparr>"
  have run: "split_pdf sz fp W w = (?w', Inr (map part_path ?st))"
    using W fl pdf by (rule split_pdf_ok)
  have len: "length (map part_path ?st) = ?n" by (simp add: length_window_starts)
  have ceil: "int ?n = \<lceil>real (length doc) / real_of_int W\<rceil>"
    using W0 by (simp add: n_parts_div ceil_div)
  have parts: "\<exists>pages. pages_at ?w' (map part_path ?st ! k) = Some pages \<and>
        pages = page_window doc (int k * W) W \<and>
        int (length pages) =
          (if k + 1 < length (map part_path ?st) then W
           else int (length doc) - W * (int (length (map part_path ?st)) - 1)) \<and>
        1 \<le> length pages \<and> int (length pages) \<le> W"
    if k: "k < length (map part_path ?st)" for k
  proof -
    have kn: "k < ?n" using k len by simp
    have nth: "map part_path ?st ! k = part_path (int k * W)"
      using kn by (simp add: length_window_starts window_starts_nth)
    have mem: "int k * W \<in> set ?st" using kn by (auto simp: window_starts_def)
    have pg: "pages_at ?w' (part_path (int k * W)) = Some (page_window doc (int k * W) W)"
      using mem by (rule pages_at_part)
    show ?thesis
      using pg length_window[OF W0 kn] by (simp only: nth len) simp
  qed
  have c2: "int (length (map part_path ?st)) = \<lceil>real (length doc) / real_of_int W\<rceil>"
    using len ceil by simp
  from run c2 parts show ?thesis by blast
qed

theorem split_pdf_part_counts_witness:
  "\<exists>w' parts. split_pdf (\<lambda>d. 0) ''big.pdf'' 10 (ex_world 20000000 25) = (w', Inr parts) \<and>
     length parts = 3 \<and>
     map (\<lambda>k. map_option length (pages_at w' (parts ! k))) [0, 1, 2] = [Some 10, Some 10, Some 5]"
proof -
  have W: "1 \<le> (10::int)" by simp
  have pdf: "fdoc \<lparr>fsize = 20000000, fdoc = Some (ex_pages 25)\<rparr> = Some (ex_pages 25)" by simp
  obtain w' parts where
    run: "split_pdf (\<lambda>d. 0) ''big.pdf'' 10 (ex_world 20000000 25) = (w', Inr parts)" and
    n: "int (length parts) = \<lceil>real (length (ex_pages 25)) / real_of_int 10\<rceil>" and
    pg: "\<forall>k<length parts. \<exists>pages. pages_at w' (parts ! k) = Some pages \<and>
        pages = page_window (ex_pages 25) (int k * 10) 10 \<and>
        int (length pages) =
          (if k + 1 < length parts then 10
           else int (length (ex_pages 25)) - 10 * (int (length parts) - 1)) \<and>
        1 \<le> length pages \<and> int (length pages) \<le> 10"
    using split_pdf_part_counts[OF W ex_world_file pdf, of "\<lambda>d. 0"] by blast
  have len: "length parts = 3" using n by (simp add: ex_pages_def)
  have "map_option length (pages_at w' (parts ! 0)) = Some 10"
    using pg[rule_format, of 0] len by (auto simp: ex_pages_def)
  moreover have "map_option length (pages_at w' (parts ! 1)) = Some 10"
    using pg[rule_format, of 1] len by (auto simp: ex_pages_def)
  moreover have "map_option length (pages_at w' (parts ! 2)) = Some 5"
    using pg[rule_format, of 2] len by (auto simp: ex_pages_def)
  ultimately show ?thesis using run len by simp
qed

lemma n_parts_one:
  assumes P: "1 \<le> P" and PW: "int P \<le> W"
  shows "n_parts P W = 1"
proof -
  have W: "0 < W" using P PW by linarith
  have nz: "W \<noteq> 0" using W by simp
  have e: "int P + W - 1 = (int P - 1) + 1 * W" by simp
  have z: "(int P - 1) div W = 0" using P PW by (simp add: div_pos_pos_trivial)
  have "(int P + W - 1) div W = ((int P - 1) + 1 * W) div W" by (simp only: e)
  also have "\<dots> = 1 + (int P - 1) div W" using nz by (rule div_mult_self1)
  finally have "(int P + W - 1) div W = 1" using z by simp
  then show ?thesis using n_parts_nat[OF W, of P] by simp
qed

lemma n_parts_zero: "n_parts 0 W = 0"
  by (simp add: n_parts_def)

lemma window_starts_increasing: "0 < W \<Longrightarrow> sorted_wrt (<) (window_starts P W)"
  by (simp add: window_starts_def sorted_wrt_map sorted_wrt_iff_nth_less)

lemma window_starts_25: "window_starts 25 10 = [0, 10, 20]"
  by (simp add: window_starts_def n_parts_def upt_rec)

text \<open>
  Claim C7, as the code has it. A readable document with \<open>P\<close> pages, \<open>1 \<le> P \<le> W\<close>,
  is split into exactly one part, \<^verbatim>\<open>split_0.pdf\<close>, which holds all \<open>P\<close> pages.
\<close>

theorem split_pdf_single_part:
  assumes P: "1 \<le> length doc" and PW: "int (length doc) \<le> W"
    and fl: "files w fp = Some f" and pdf: "fdoc f = Some doc"
  shows "\<exists>w'. split_pdf sz fp W w = (w', Inr [''split_0.pdf'']) \<and>
               pages_at w' ''split_0.pdf'' = Some doc"
proof -
  have W: "1 \<le> W" using P PW by linarith
  have st: "window_starts (length doc) W = [0]"
    using n_parts_one[OF P PW] by (simp add: window_starts_def)
  let ?w' = "w\<lparr>trace := trace w @ PdfOpen fp # map (\<lambda>i. PdfSave (part_path i)) [0],
       files := fold (write_part sz doc W) [0] (files w)\<rparr>"
  have run: "split_pdf sz fp W w = (?w', Inr (map part_path [0]))"
    using split_pdf_ok[OF W fl pdf, of sz] by (simp only: st)
  have "pages_at ?w' (part_path 0) = Some (page_window doc 0 W)"
    by (rule pages_at_part) simp
  moreover have "page_window doc 0 W = doc" using PW by (simp add: page_window_def)
  ultimately have "pages_at ?w' ''split_0.pdf'' = Some doc" by (simp add: part_path_0)
  moreover have "split_pdf sz fp W w = (?w', Inr [''split_0.pdf''])"
    using run by (simp add: part_path_0)
  ultimately show ?thesis by blast
qed

theorem split_pdf_single_part_witness:
  "\<exists>w'. split_pdf (\<lambda>d. 0) ''big.pdf'' 10 (ex_world 20000000 7) = (w', Inr [''split_0.pdf'']) \<and>
        pages_at w' ''split_0.pdf'' = Some [0, 1, 2, 3, 4, 5, 6]"
proof -
  have P: "1 \<le> length (ex_pages 7)" by (simp add: ex_pages_def)
  have PW: "int (length (ex_pages 7)) \<le> 10" by (simp add: ex_pages_def)
  have pdf: "fdoc \<lparr>fsize = 20000000, fdoc = Some (ex_pages 7)\<rparr> = Some (ex_pages 7)" by simp
  have e: "ex_pages 7 = [0, 1, 2, 3, 4, 5, 6]" by (simp add: ex_pages_def upt_rec)
  show ?thesis
    using split_pdf_single_part[OF P PW ex_world_file pdf, of "\<lambda>d. 0"] by (simp only: e)
qed

text \<open>
  Claim C7 as stated also covers \<open>P = 0\<close>. A document with no page has \<open>P \<le> W\<close>, and
  \<^verbatim>\<open>range(0, 0, 10)\<close> is empty: the loop body never runs, nothing is saved and the
  returned list is empty, not a list of one part.
\<close>

theorem split_pdf_no_page_counterexample:
  "split_pdf (\<lambda>d. 0) ''big.pdf'' 10 (ex_world 20000000 0) =
     (\<lparr>trace = [PdfOpen ''big.pdf''],
       files = [''big.pdf'' \<mapsto> \<lparr>fsize = 20000000, fdoc = Some []\<rparr>]\<rparr>, Inr [])"
  by (simp add: split_pdf_def pymupdf_open_def ex_world_def ex_pages_def py_range_def
      range_pos.simps[of 0 0 10])

text \<open>
  Claim C9. For a readable document and a window size \<open>W \<ge> 1\<close>, the windows start at the
  page indices \<open>0, W, 2W, \<dots>\<close>; the part whose window starts at \<open>i\<close> is saved under the
  name \<^verbatim>\<open>split_{i}.pdf\<close>, a name with no directory part (so it is taken in the
  current working directory), and holds that window; the saves happen in increasing order
  of \<open>i\<close>, and the returned list is the list of these names in the same order.
\<close>

theorem split_pdf_paths:
  assumes W: "1 \<le> W" and fl: "files w fp = Some f" and pdf: "fdoc f = Some doc"
  shows "\<exists>w'. split_pdf sz fp W w = (w', Inr (map part_path (window_starts (length doc) W))) \<and>
     trace w' = trace w @ PdfOpen fp #
                  map (\<lambda>i. PdfSave (part_path i)) (window_starts (length doc) W) \<and>
     sorted_wrt (<) (window_starts (length doc) W) \<and>
     (\<forall>i\<in>set (window_starts (length doc) W).
        part_path i = ''split_'' @ str_int i @ ''.pdf'' \<and>
        CHR ''/'' \<notin> set (part_path i) \<and>
        pages_at w' (part_path i) = Some (page_window doc i W))"
proof -
  have W0: "0 < W" using W by simp
  let ?st = "window_starts (length doc) W"
  let ?w' = "w\<lparr>trace := trace w @ PdfOpen fp # map (\<lambda>i. PdfSave (part_path i)) ?st,
       files := fold (write_part sz doc W) ?st (files w)\<rparr>"
  have run: "split_pdf sz fp W w = (?w', Inr (map part_path ?st))"
    using W fl pdf by (rule split_pdf_ok)
  have tr: "trace ?w' = trace w @ PdfOpen fp # map (\<lambda>i. PdfSave (part_path i)) ?st" by simp
  have inc: "sorted_wrt (<) ?st" using W0 by (rule window_starts_increasing)
  have each: "\<forall>i\<in>set ?st. part_path i = ''split_'' @ str_int i @ ''.pdf'' \<and>
        CHR ''/'' \<notin> set (part_path i) \<and>
        pages_at ?w' (part_path i) = Some (page_window doc i W)"
  proof
    fix i assume i: "i \<in> set ?st"
    have "pages_at ?w' (part_path i) = Some (page_window doc i W)" using i by (rule pages_at_part)
    moreover have "part_path i = ''split_'' @ str_int i @ ''.pdf''" by (simp add: part_path_def)
    ultimately show "part_path i = ''split_'' @ str_int i @ ''.pdf'' \<and>
        CHR ''/'' \<notin> set (part_path i) \<and>
        pages_at ?w' (part_path i) = Some (page_window doc i W)"
      using part_path_no_slash[of i] by blast
  qed
  from run tr inc each show ?thesis by blast
qed

theorem split_pdf_paths_witness:
  "\<exists>w'. split_pdf (\<lambda>d. 0) ''big.pdf'' 10 (ex_world 20000000 25) =
          (w', Inr [''split_0.pdf'', ''split_10.pdf'', ''split_20.pdf'']) \<and>
     trace w' = [PdfOpen ''big.pdf'', PdfSave ''split_0.pdf'', PdfSave ''split_10.pdf'',
                 PdfSave ''split_20.pdf''] \<and>
     pages_at w' ''split_20.pdf'' = Some [20, 21, 22, 23, 24]"
proof -
  have W: "1 \<le> (10::int)" by simp
  have pdf: "fdoc \<lparr>fsize = 20000000, fdoc = Some (ex_pages 25)\<rparr> = Some (ex_pages 25)" by simp
  have len: "length (ex_pages 25) = 25" by (simp add: ex_pages_def)
  have pw: "page_window (ex_pages 25) 20 10 = [20, 21, 22, 23, 24]"
    by (simp add: page_window_def ex_pages_def upt_rec)
  have tr0: "trace (ex_world 20000000 25) = []" by (simp add: ex_world_def)
  show ?thesis
    using split_pdf_paths[OF W ex_world_file pdf, of "\<lambda>d. 0"]
    by (simp add: len window_starts_25 part_path_0 part_path_10 part_path_20 pw tr0) blast
qed

section \<open>Construction\<close>

lemma upload_events_simps [simp]:
  "upload_events b [] = []"
  "upload_events b (p # ps) = Ingest (mk_document b p) # upload_events b ps"
  by (simp_all add: upload_events_def)

lemma upload_all_result:
  "upload_all c b parts w = (w', Inr pids) \<Longrightarrow>
     length pids = length parts \<and>
     w' = w\<lparr>trace := trace w @ upload_events b parts\<rparr> \<and>
     (\<forall>i<length parts.
        ingest c (trace w @ upload_events b (take i parts)) (mk_document b (parts ! i)) =
          Inr (pids ! i))"
proof (induction parts arbitrary: w w' pids)
  case Nil
  then show ?case by simp
next
  case (Cons p parts)
  let ?w1 = "w\<lparr>trace := trace w @ [Ingest (mk_document b p)]\<rparr>"
  from Cons.prems obtain pid pids' where
    first: "ingest c (trace w) (mk_document b p) = Inr pid" and
    rest: "upload_all c b parts ?w1 = (w', Inr pids')" and
    pids: "pids = pid # pids'"
    by (auto simp: upload_document_def split: sum.splits prod.splits)
  from Cons.IH[OF rest] have
    len: "length pids' = length parts" and
    w': "w' = ?w1\<lparr>trace := trace ?w1 @ upload_events b parts\<rparr>" and
    each: "\<forall>i<length parts.
        ingest c (trace ?w1 @ upload_events b (take i parts)) (mk_document b (parts ! i)) =
          Inr (pids' ! i)"
    by simp_all
  have "ingest c (trace w @ upload_events b (take i (p # parts))) (mk_document b ((p # parts) ! i)) =
          Inr (pids ! i)" if "i < length (p # parts)" for i
  proof (cases i)
    case 0
    then show ?thesis using first pids by simp
  next
    case (Suc j)
    then have "j < length parts" using that by simp
    then show ?thesis using each Suc pids by simp
  qed
  then show ?case using len w' pids by simp
qed

lemma upload_all_ok:
  assumes up: "\<forall>h d. \<exists>pid. ingest c h d = Inr pid"
  shows "\<exists>pids. upload_all c b parts w =
           (w\<lparr>trace := trace w @ upload_events b parts\<rparr>, Inr pids)"
proof (induction parts arbitrary: w)
  case Nil
  then show ?case by simp
next
  case (Cons p parts)
  let ?w1 = "w\<lparr>trace := trace w @ [Ingest (mk_document b p)]\<rparr>"
  obtain pid where first: "ingest c (trace w) (mk_document b p) = Inr pid" using up by blast
  obtain pids where rest: "upload_all c b parts ?w1 =
      (?w1\<lparr>trace := trace ?w1 @ upload_events b parts\<rparr>, Inr pids)"
    using Cons.IH[of ?w1] by blast
  show ?case using first rest by (simp add: upload_document_def)
qed

lemma run_keeps_tool: "fst (run t q w) = t"
  by (simp add: run_def split: prod.splits sum.splits loop_exit.splits)

lemma ex_init_small:
  "init ex_client (\<lambda>d. 0) ''big.pdf'' (ex_world 100 3) =
     (\<lparr>trace = [BucketsCreate ''agentic_rag'', GetSize ''big.pdf'',
                 Ingest (Document 7 ''big.pdf'' ''big.pdf'' ''pdf'' [(''key'', ''value'')])],
       files = [''big.pdf'' \<mapsto> \<lparr>fsize = 100, fdoc = Some (ex_pages 3)\<rparr>]\<rparr>,
      Inr (ex_tool [''big.pdf'']))"
  by (simp add: init_def create_bucket_def getsize_def ex_world_def ex_client_def ex_tool_def
      upload_document_def mk_document_def basename_def)

lemma part_pages_bounds:
  assumes W: "0 < W" and p: "p \<in> set (map part_path (window_starts (length doc) W))"
  shows "\<exists>pages. pages_at (w\<lparr>trace := tr,
             files := fold (write_part sz doc W) (window_starts (length doc) W) fs\<rparr>) p = Some pages \<and>
           1 \<le> length pages \<and> int (length pages) \<le> W"
proof -
  from p obtain k where k: "k < n_parts (length doc) W" and pk: "p = part_path (int k * W)"
    by (auto simp: window_starts_def)
  have mem: "int k * W \<in> set (window_starts (length doc) W)"
    using k by (auto simp: window_starts_def)
  have "pages_at (w\<lparr>trace := tr,
             files := fold (write_part sz doc W) (window_starts (length doc) W) fs\<rparr>)
          (part_path (int k * W)) = Some (page_window doc (int k * W) W)"
    using mem by (rule pages_at_part)
  then show ?thesis using pk length_window(2,3)[OF W k] by blast
qed

lemma ex_client_bucket: "buckets_create ex_client h name = Inr 7"
  by (simp add: ex_client_def)

lemma ex_client_ingest: "\<forall>h d. \<exists>pid. ingest ex_client h d = Inr pid"
  by (simp add: ex_client_def)

text \<open>
  Claim C4. When the bucket is created, the file exists and every upload is accepted,
  construction succeeds, and the split happens exactly when the byte size is strictly
  greater than 10485760: at that size or below the trace has no PDF event and the only
  part is the file itself; above it (the file being a readable PDF) the trace has the
  message, the opening of the file and the saves, the parts are the names
  \<^verbatim>\<open>split_{i}.pdf\<close> of the windows of 10 pages, and every part holds between 1 and 10
  pages. The witness takes the two sizes 10485760 and 10485761.
\<close>

theorem init_split_threshold:
  assumes bucket: "buckets_create c (trace w) ''agentic_rag'' = Inr b"
    and fl: "files w fp = Some f"
    and pdf: "10485760 < fsize f \<Longrightarrow> fdoc f = Some doc"
    and up: "\<forall>h d. \<exists>pid. ingest c h d = Inr pid"
  shows "\<exists>w' t. init c sz fp w = (w', Inr t) \<and>
      pdf_parts t =
        (if 10485760 < fsize f then map part_path (window_starts (length doc) 10) else [fp]) \<and>
      trace w' = trace w @ [BucketsCreate ''agentic_rag'', GetSize fp] @
        (if 10485760 < fsize f
         then Print too_large_message # PdfOpen fp #
              map (\<lambda>i. PdfSave (part_path i)) (window_starts (length doc) 10)
         else []) @
        upload_events b (pdf_parts t) \<and>
      (10485760 < fsize f \<longrightarrow>
         (\<forall>p\<in>set (pdf_parts t). \<exists>pages. pages_at w' p = Some pages \<and>
             1 \<le> length pages \<and> length pages \<le> 10))"
proof -
  let ?w1 = "w\<lparr>trace := trace w @ [BucketsCreate ''agentic_rag'']\<rparr>"
  let ?w2 = "?w1\<lparr>trace := trace ?w1 @ [GetSize fp]\<rparr>"
  have cb: "create_bucket c w = (?w1, Inr b)" using bucket by (simp add: create_bucket_def)
  have gs: "getsize fp ?w1 = (?w2, Inr (fsize f))" using fl by (simp add: getsize_def)
  show ?thesis
  proof (cases "10485760 < fsize f")
    case False
    obtain pids where ul: "upload_all c b [fp] ?w2 =
        (?w2\<lparr>trace := trace ?w2 @ upload_events b [fp]\<rparr>, Inr pids)"
      using upload_all_ok[OF up, of b "[fp]" ?w2] by blast
    have "init c sz fp w = (?w2\<lparr>trace := trace ?w2 @ upload_events b [fp]\<rparr>,
        Inr \<lparr>file_path = fp, client = c, bucket_id = b, pdf_parts = [fp], process_ids = pids\<rparr>)"
      using False ul by (simp add: init_def cb gs del: upload_all.simps)
    then show ?thesis using False by simp
  next
    case True
    let ?st = "window_starts (length doc) 10"
    let ?w2p = "?w2\<lparr>trace := trace ?w2 @ [Print too_large_message]\<rparr>"
    let ?w3 = "?w2p\<lparr>trace := trace ?w2p @ PdfOpen fp # map (\<lambda>i. PdfSave (part_path i)) ?st,
       files := fold (write_part sz doc 10) ?st (files ?w2p)\<rparr>"
    have fl2: "files ?w2p fp = Some f" using fl by simp
    have sp: "split_pdf sz fp 10 ?w2p = (?w3, Inr (map part_path ?st))"
      using split_pdf_ok[OF _ fl2 pdf[OF True], of 10 sz] by simp
    obtain pids where ul: "upload_all c b (map part_path ?st) ?w3 =
        (?w3\<lparr>trace := trace ?w3 @ upload_events b (map part_path ?st)\<rparr>, Inr pids)"
      using upload_all_ok[OF up, of b "map part_path ?st" ?w3] by blast
    let ?w4 = "?w3\<lparr>trace := trace ?w3 @ upload_events b (map part_path ?st)\<rparr>"
    let ?t = "\<lparr>file_path = fp, client = c, bucket_id = b,
               pdf_parts = map part_path ?st, process_ids = pids\<rparr>"
    have run: "init c sz fp w = (?w4, Inr ?t)"
      using True sp ul by (simp add: init_def cb gs del: upload_all.simps)
    have pg: "\<forall>p\<in>set (pdf_parts ?t). \<exists>pages. pages_at ?w4 p = Some pages \<and>
             1 \<le> length pages \<and> length pages \<le> 10"
    proof
      fix p assume "p \<in> set (pdf_parts ?t)"
      then have p: "p \<in> set (map part_path ?st)" by simp
      have "\<exists>pages. pages_at (w\<lparr>trace := trace ?w4,
             files := fold (write_part sz doc 10) ?st (files w)\<rparr>) p = Some pages \<and>
           1 \<le> length pages \<and> int (length pages) \<le> 10"
        using part_pages_bounds[OF _ p, where w = w and tr = "trace ?w4" and sz = sz and fs = "files w"]
        by simp
      then show "\<exists>pages. pages_at ?w4 p = Some pages \<and> 1 \<le> length pages \<and> length pages \<le> 10"
        by (simp add: pages_at_def)
    qed
    have tr: "trace ?w4 = trace w @ [BucketsCreate ''agentic_rag'', GetSize fp] @
        (Print too_large_message # PdfOpen fp # map (\<lambda>i. PdfSave (part_path i)) ?st) @
        upload_events b (pdf_parts ?t)" by simp
    show ?thesis using True run pg tr by (intro exI[of _ ?w4] exI[of _ ?t]) simp
  qed
qed

theorem init_split_threshold_witness:
  "(\<exists>w' t. init ex_client (\<lambda>d. 0) ''big.pdf'' (ex_world 10485760 25) = (w', Inr t) \<and>
       pdf_parts t = [''big.pdf'']) \<and>
   (\<exists>w' t. init ex_client (\<lambda>d. 0) ''big.pdf'' (ex_world 10485761 25) = (w', Inr t) \<and>
       pdf_parts t = [''split_0.pdf'', ''split_10.pdf'', ''split_20.pdf''])"
proof -
  have len: "length (ex_pages 25) = 25" by (simp add: ex_pages_def)
  have a: "\<exists>w' t. init ex_client (\<lambda>d. 0) ''big.pdf'' (ex_world 10485760 25) = (w', Inr t) \<and>
       pdf_parts t = [''big.pdf'']"
    using init_split_threshold[OF ex_client_bucket ex_world_file[of 10485760 25] _ ex_client_ingest,
        where doc = "ex_pages 25" and sz = "\<lambda>d. 0"]
    by simp blast
  have b: "\<exists>w' t. init ex_client (\<lambda>d. 0) ''big.pdf'' (ex_world 10485761 25) = (w', Inr t) \<and>
       pdf_parts t = [''split_0.pdf'', ''split_10.pdf'', ''split_20.pdf'']"
    using init_split_threshold[OF ex_client_bucket ex_world_file[of 10485761 25] _ ex_client_ingest,
        where doc = "ex_pages 25" and sz = "\<lambda>d. 0"]
    by (simp add: len window_starts_25 part_path_0 part_path_10 part_path_20) blast
  from a b show ?thesis by blast
qed

text \<open>
  Claim C5. After a successful construction there are as many job identifiers as parts;
  the last events of the construction are the uploads of the parts, in order, and job
  identifier \<open>i\<close> is what the service answered to the upload of part \<open>i\<close>; and a query
  hands back the instance unchanged, both sequences included.
\<close>

theorem init_parts_jobs_aligned:
  assumes ok: "init c sz fp w = (w', Inr t)"
  shows "length (process_ids t) = length (pdf_parts t) \<and>
    (\<exists>h. trace w' = h @ upload_events (bucket_id t) (pdf_parts t) \<and>
       (\<forall>i<length (pdf_parts t).
          ingest (client t) (h @ upload_events (bucket_id t) (take i (pdf_parts t)))
            (mk_document (bucket_id t) (pdf_parts t ! i)) = Inr (process_ids t ! i))) \<and>
    (\<forall>q v. fst (run t q v) = t)"
proof -
  from ok obtain b w3 parts pids where
    up: "upload_all c b parts w3 = (w', Inr pids)" and
    t: "t = \<lparr>file_path = fp, client = c, bucket_id = b, pdf_parts = parts, process_ids = pids\<rparr>"
    by (auto simp: init_def split: prod.splits sum.splits)
  from upload_all_result[OF up] have
    len: "length pids = length parts" and
    w': "w' = w3\<lparr>trace := trace w3 @ upload_events b parts\<rparr>" and
    each: "\<forall>i<length parts.
        ingest c (trace w3 @ upload_events b (take i parts)) (mk_document b (parts ! i)) =
          Inr (pids ! i)"
    by simp_all
  have tr: "trace w' = trace w3 @ upload_events b parts" using w' by simp
  have "\<exists>h. trace w' = h @ upload_events (bucket_id t) (pdf_parts t) \<and>
       (\<forall>i<length (pdf_parts t).
          ingest (client t) (h @ upload_events (bucket_id t) (take i (pdf_parts t)))
            (mk_document (bucket_id t) (pdf_parts t ! i)) = Inr (process_ids t ! i))"
    using tr each by (intro exI[of _ "trace w3"]) (simp add: t)
  moreover have "length (process_ids t) = length (pdf_parts t)" using len by (simp add: t)
  moreover have "\<forall>q v. fst (run t q v) = t" by (simp add: run_keeps_tool)
  ultimately show ?thesis by blast
qed

theorem init_parts_jobs_aligned_witness:
  "length (process_ids (ex_tool [''big.pdf''])) = length (pdf_parts (ex_tool [''big.pdf''])) \<and>
   ingest ex_client [BucketsCreate ''agentic_rag'', GetSize ''big.pdf'']
     (mk_document 7 ''big.pdf'') = Inr (process_ids (ex_tool [''big.pdf'']) ! 0) \<and>
   fst (run (ex_tool [''big.pdf'']) ''query'' (ex_world 100 3)) = ex_tool [''big.pdf'']"
proof -
  note h = init_parts_jobs_aligned[OF ex_init_small]
  have a: "length (process_ids (ex_tool [''big.pdf''])) = length (pdf_parts (ex_tool [''big.pdf'']))"
    using h by blast
  have b: "fst (run (ex_tool [''big.pdf'']) ''query'' (ex_world 100 3)) = ex_tool [''big.pdf'']"
    using h[THEN conjunct2, THEN conjunct2, rule_format, of "''query''" "ex_world 100 3"] .
  have c: "ingest ex_client [BucketsCreate ''agentic_rag'', GetSize ''big.pdf'']
     (mk_document 7 ''big.pdf'') = Inr (process_ids (ex_tool [''big.pdf'']) ! 0)"
    using h[THEN conjunct2, THEN conjunct1] by (auto simp: ex_tool_def upload_events_def)
  from a b c show ?thesis by blast
qed

text \<open>
  Claim C10. When the input path does not exist, construction fails, and the bucket
  creation request with the name \<^verbatim>\<open>agentic_rag\<close> is the first event: if the service
  refuses it, its exception ends the construction; if the service creates the bucket, the
  size inspection comes after it and raises \<^verbatim>\<open>FileNotFoundError\<close>, with the bucket
  already created and nothing uploaded.
\<close>

theorem init_missing_file:
  assumes missing: "files w fp = None"
  shows "case buckets_create c (trace w) ''agentic_rag'' of
           Inl e \<Rightarrow>
             init c sz fp w = (w\<lparr>trace := trace w @ [BucketsCreate ''agentic_rag'']\<rparr>, Inl e)
         | Inr b \<Rightarrow>
             init c sz fp w =
               (w\<lparr>trace := trace w @ [BucketsCreate ''agentic_rag'', GetSize fp]\<rparr>,
                Inl FileNotFoundError)"
  using missing by (simp add: init_def create_bucket_def getsize_def split: sum.splits)

theorem init_missing_file_witness:
  "init ex_client (\<lambda>d. 0) ''missing.pdf'' (ex_world 100 3) =
     ((ex_world 100 3)\<lparr>trace := [BucketsCreate ''agentic_rag'', GetSize ''missing.pdf'']\<rparr>,
      Inl FileNotFoundError)"
proof -
  have missing: "files (ex_world 100 3) ''missing.pdf'' = None" by (simp add: ex_world_def)
  have tr: "trace (ex_world 100 3) = []" by (simp add: ex_world_def)
  show ?thesis
    using init_missing_file[OF missing, of ex_client "\<lambda>d. 0"]
    by (simp add: ex_client_bucket tr)
qed

section \<open>Queries\<close>

lemma status_history_0: "status_history t q h 0 = h"
  by (simp add: status_history_def)

lemma status_history_Suc:
  "k < length (process_ids t) \<Longrightarrow>
   status_history t q h (Suc k) = status_history t q h k @ job_events t q (process_ids t ! k)"
  by (simp add: status_history_def take_Suc_conv_app_nth)

lemma status_history_all:
  "status_history t q h (length (process_ids t)) = h @ concat (map (job_events t q) (process_ids t))"
  by (simp add: status_history_def)

lemma run_loop_complete_from:
  assumes complete: "\<forall>k<length (process_ids t).
      get_processing_status_by_id (client t) (status_history t q h k) (process_ids t ! k) =
        Inr ''complete''"
    and answers: "\<forall>k<length (process_ids t). \<exists>texts.
      search_content (client t) (search_history t q h k) (bucket_id t) q 10 2 = Inr texts"
  shows "k \<le> length (process_ids t) \<Longrightarrow> trace w = status_history t q h k \<Longrightarrow>
    run_loop t q (drop k (process_ids t)) acc w =
      (w\<lparr>trace := h @ concat (map (job_events t q) (process_ids t))\<rparr>,
       Inr (Done (acc @ concat (map (fragments_of t q h) [k..<length (process_ids t)]))))"
proof (induction "length (process_ids t) - k" arbitrary: k acc w)
  case 0
  then have k: "k = length (process_ids t)" by simp
  then have "trace w = h @ concat (map (job_events t q) (process_ids t))"
    using 0 by (simp add: status_history_def)
  then have "w\<lparr>trace := h @ concat (map (job_events t q) (process_ids t))\<rparr> = w"
    by (metis world.surjective world.update_convs(1))
  then show ?case using k by simp
next
  case (Suc n)
  let ?N = "length (process_ids t)"
  let ?p = "process_ids t ! k"
  have k: "k < ?N" using Suc(2) by linarith
  have dr: "drop k (process_ids t) = ?p # drop (Suc k) (process_ids t)"
    using k by (simp add: Cons_nth_drop_Suc)
  have st: "get_processing_status_by_id (client t) (trace w) ?p = Inr ''complete''"
    using complete k Suc.prems(2) by simp
  obtain texts where
    se: "search_content (client t) (search_history t q h k) (bucket_id t) q 10 2 = Inr texts"
    using answers k by blast
  have se': "search_content (client t) (trace w @ [GetProcessingStatus ?p]) (bucket_id t) q 10 2 =
      Inr texts"
    using se Suc.prems(2) by (simp add: search_history_def)
  have fr: "fragments_of t q h k = texts" using se by (simp add: fragments_of_def)
  let ?w2 = "w\<lparr>trace := trace w @ [GetProcessingStatus ?p, SearchContent (bucket_id t) q 10 2]\<rparr>"
  have tr2: "trace ?w2 = status_history t q h (Suc k)"
    using k Suc.prems(2) by (simp add: status_history_Suc job_events_def)
  have n: "n = ?N - Suc k" using Suc(2) by linarith
  have IH: "run_loop t q (drop (Suc k) (process_ids t)) (acc @ texts) ?w2 =
      (?w2\<lparr>trace := h @ concat (map (job_events t q) (process_ids t))\<rparr>,
       Inr (Done ((acc @ texts) @ concat (map (fragments_of t q h) [Suc k..<?N]))))"
    using Suc(1)[OF n _ tr2] k by simp
  have up: "[k..<?N] = k # [Suc k..<?N]" using k by (simp add: upt_conv_Cons)
  show ?case
    by (simp only: dr run_loop.simps st se' IH up fr sum.case if_False simp_thms
        list.map concat.simps append_assoc) simp
qed

lemma searches_of_jobs:
  "filter is_search (concat (map (job_events t q) ps)) =
     replicate (length ps) (SearchContent (bucket_id t) q 10 2)"
  by (induction ps) (simp_all add: job_events_def)

lemma run_loop_complete:
  assumes complete: "\<forall>k<length (process_ids t).
      get_processing_status_by_id (client t) (status_history t q (trace w) k) (process_ids t ! k) =
        Inr ''complete''"
    and answers: "\<forall>k<length (process_ids t). \<exists>texts.
      search_content (client t) (search_history t q (trace w) k) (bucket_id t) q 10 2 = Inr texts"
  shows "run_loop t q (process_ids t) [] w =
      (w\<lparr>trace := trace w @ concat (map (job_events t q) (process_ids t))\<rparr>,
       Inr (Done (collected t q (trace w))))"
  using run_loop_complete_from[OF complete answers, of 0 w "[]"]
  by (simp add: status_history_0 collected_def)



lemma run_loop_pending:
  assumes pending: "\<forall>h. \<exists>s. get_processing_status_by_id (client t) h p = Inr s \<and> s \<noteq> ''complete''"
    and statuses: "\<forall>h p'. \<exists>s. get_processing_status_by_id (client t) h p' = Inr s"
    and answers: "\<forall>h. \<exists>texts. search_content (client t) h (bucket_id t) q 10 2 = Inr texts"
  shows "p \<in> set ps \<Longrightarrow> \<exists>w'. run_loop t q ps acc w = (w', Inr (Return still_processing))"
proof (induction ps arbitrary: acc w)
  case Nil
  then show ?case by simp
next
  case (Cons p' ps)
  obtain s where s: "get_processing_status_by_id (client t) (trace w) p' = Inr s"
    using statuses by blast
  show ?case
  proof (cases "s = ''complete''")
    case False
    then show ?thesis using s by simp
  next
    case True
    have "p' \<noteq> p"
    proof
      assume "p' = p"
      then have "get_processing_status_by_id (client t) (trace w) p = Inr ''complete''"
        using s True by simp
      then show False using pending by (metis sum.inject(2))
    qed
    then have mem: "p \<in> set ps" using Cons.prems by simp
    obtain texts where se: "search_content (client t) (trace w @ [GetProcessingStatus p'])
        (bucket_id t) q 10 2 = Inr texts"
      using answers by blast
    show ?thesis using s True se Cons.IH[OF mem] by simp
  qed
qed

lemma ex_tool_fields:
  "process_ids (ex_tool names) = names" "client (ex_tool names) = ex_client"
  "bucket_id (ex_tool names) = 7"
  by (simp_all add: ex_tool_def)

lemma ex_client_status:
  "get_processing_status_by_id ex_client h p =
     Inr (if p = ''pending'' then ''processing'' else ''complete'')"
  by (simp add: ex_client_def)

lemma ex_client_search: "search_content ex_client h b q n v = Inr [''A'', ''B'']"
  by (simp add: ex_client_def)

lemma ex_world_trace: "trace (ex_world bytes n) = []"
  by (simp add: ex_world_def)

lemma run_loop_exact:
  "\<exists>k\<le>length ps.
     (\<forall>j<k.
        get_processing_status_by_id (client t)
          (trace w @ concat (map (job_events t q) (take j ps))) (ps ! j) = Inr ''complete'' \<and>
        (\<exists>texts. search_content (client t)
          (trace w @ concat (map (job_events t q) (take j ps)) @ [GetProcessingStatus (ps ! j)])
          (bucket_id t) q 10 2 = Inr texts)) \<and>
     (k = length ps \<and>
        trace (fst (run_loop t q ps acc w)) = trace w @ concat (map (job_events t q) ps)
      \<or> k < length ps \<and>
        get_processing_status_by_id (client t)
          (trace w @ concat (map (job_events t q) (take k ps))) (ps ! k) \<noteq> Inr ''complete'' \<and>
        trace (fst (run_loop t q ps acc w)) =
          trace w @ concat (map (job_events t q) (take k ps)) @ [GetProcessingStatus (ps ! k)]
      \<or> k < length ps \<and>
        get_processing_status_by_id (client t)
          (trace w @ concat (map (job_events t q) (take k ps))) (ps ! k) = Inr ''complete'' \<and>
        (\<exists>e. search_content (client t)
          (trace w @ concat (map (job_events t q) (take k ps)) @ [GetProcessingStatus (ps ! k)])
          (bucket_id t) q 10 2 = Inl e) \<and>
        trace (fst (run_loop t q ps acc w)) =
          trace w @ concat (map (job_events t q) (take k ps)) @ job_events t q (ps ! k))"
  (is "\<exists>k\<le>length ps. ?passed ps w k \<and> ?ends ps acc w k")
proof (induction ps arbitrary: acc w)
  case Nil
  show ?case by simp
next
  case (Cons p ps)
  let ?S = "GetProcessingStatus p"
  let ?Q = "SearchContent (bucket_id t) q 10 2"
  show ?case
  proof (cases "get_processing_status_by_id (client t) (trace w) p = Inr ''complete''")
    case False
    then have "trace (fst (run_loop t q (p # ps) acc w)) = trace w @ [?S]"
      by (auto split: sum.splits)
    then have "?passed (p # ps) w 0 \<and> ?ends (p # ps) acc w 0" using False by simp
    then show ?thesis by blast
  next
    case True
    show ?thesis
    proof (cases "search_content (client t) (trace w @ [?S]) (bucket_id t) q 10 2")
      case (Inl e)
      then have "trace (fst (run_loop t q (p # ps) acc w)) = trace w @ [?S, ?Q]"
        using True by simp
      then have "?passed (p # ps) w 0 \<and> ?ends (p # ps) acc w 0"
        using True Inl by (simp add: job_events_def)
      then show ?thesis by blast
    next
      case (Inr texts)
      define w2 where "w2 = w\<lparr>trace := trace w @ [?S, ?Q]\<rparr>"
      have tw2: "trace w2 = trace w @ job_events t q p"
        by (simp add: w2_def job_events_def)
      have step: "run_loop t q (p # ps) acc w = run_loop t q ps (acc @ texts) w2"
        using True Inr by (simp add: w2_def)
      have first: "search_content (client t) (trace w @ [GetProcessingStatus p])
          (bucket_id t) q 10 2 = Inr texts"
        using Inr .
      obtain k where k: "k \<le> length ps" and
        passed: "?passed ps w2 k" and ends: "?ends ps (acc @ texts) w2 k"
        using Cons.IH[where acc = "acc @ texts" and w = w2] by blast
      have passed': "?passed (p # ps) w (Suc k)"
      proof (intro allI impI)
        fix j assume j: "j < Suc k"
        show "get_processing_status_by_id (client t)
          (trace w @ concat (map (job_events t q) (take j (p # ps)))) ((p # ps) ! j) = Inr ''complete'' \<and>
        (\<exists>texts. search_content (client t)
          (trace w @ concat (map (job_events t q) (take j (p # ps))) @
             [GetProcessingStatus ((p # ps) ! j)])
          (bucket_id t) q 10 2 = Inr texts)"
        proof (cases j)
          case 0
          then show ?thesis using True first by simp
        next
          case (Suc i)
          then have "i < k" using j by simp
          then show ?thesis using passed Suc by (simp add: tw2)
        qed
      qed
      have ends': "?ends (p # ps) acc w (Suc k)"
        using ends unfolding step by (simp add: tw2)
      from k passed' ends' show ?thesis
        by (intro exI[of _ "Suc k"]) simp
    qed
  qed
qed

lemma run_world: "fst (snd (run t q w)) = fst (run_loop t q (process_ids t) [] w)"
  by (simp add: run_def split: prod.splits sum.splits loop_exit.splits)


lemma ex_run_two:
  "run (ex_tool [''p1'', ''p2'']) ''q'' (ex_world 100 3) =
     (ex_tool [''p1'', ''p2''],
      (ex_world 100 3)\<lparr>trace :=
        [GetProcessingStatus ''p1'', SearchContent 7 ''q'' 10 2,
         GetProcessingStatus ''p2'', SearchContent 7 ''q'' 10 2]\<rparr>,
      Inr (''A'' @ delimiter @ ''B'' @ delimiter @ ''A'' @ delimiter @ ''B''))"
  by (simp add: run_def ex_tool_fields ex_client_status ex_client_search ex_world_trace)

lemma ex_run_pending:
  "run (ex_tool [''pending'', ''p2'']) ''q'' (ex_world 100 3) =
     (ex_tool [''pending'', ''p2''],
      (ex_world 100 3)\<lparr>trace := [GetProcessingStatus ''pending'']\<rparr>,
      Inr still_processing)"
  by (simp add: run_def ex_tool_fields ex_client_status ex_client_search ex_world_trace)

text \<open>
  Claim C2. If some recorded job is not complete (the service answers its status
  request with a status other than \<^verbatim>\<open>complete\<close>, whenever it is asked) and the service
  answers every request of the query, then the query returns the fixed string
  \<^verbatim>\<open>Document is still being processed...\<close>, whatever the statuses of the other jobs are.
\<close>

theorem run_still_processing:
  assumes job: "p \<in> set (process_ids t)"
    and pending: "\<forall>h. \<exists>s. get_processing_status_by_id (client t) h p = Inr s \<and> s \<noteq> ''complete''"
    and statuses: "\<forall>h p'. \<exists>s. get_processing_status_by_id (client t) h p' = Inr s"
    and answers: "\<forall>h. \<exists>texts. search_content (client t) h (bucket_id t) q 10 2 = Inr texts"
  shows "snd (snd (run t q w)) = Inr ''Document is still being processed...''"
proof -
  obtain w' where "run_loop t q (process_ids t) [] w = (w', Inr (Return still_processing))"
    using run_loop_pending[OF pending statuses answers job] by blast
  then show ?thesis by (simp add: run_def still_processing_def)
qed

theorem run_still_processing_witness:
  "snd (snd (run (ex_tool [''p1'', ''pending'', ''p3'']) ''q'' (ex_world 100 3))) =
     Inr ''Document is still being processed...''"
proof -
  let ?t = "ex_tool [''p1'', ''pending'', ''p3'']"
  have job: "''pending'' \<in> set (process_ids ?t)" by (simp add: ex_tool_fields)
  have pending: "\<forall>h. \<exists>s. get_processing_status_by_id (client ?t) h ''pending'' = Inr s \<and>
      s \<noteq> ''complete''"
    by (simp add: ex_tool_fields ex_client_status)
  have statuses: "\<forall>h p'. \<exists>s. get_processing_status_by_id (client ?t) h p' = Inr s"
    by (simp add: ex_tool_fields ex_client_status)
  have answers: "\<forall>h. \<exists>texts. search_content (client ?t) h (bucket_id ?t) ''q'' 10 2 = Inr texts"
    by (simp add: ex_tool_fields ex_client_search)
  show ?thesis using run_still_processing[OF job pending statuses answers] .
qed

text \<open>
  Claim C3. If every status fetched during the query is \<^verbatim>\<open>complete\<close> and every search
  is answered, the query returns the collected fragments joined with the delimiter (a
  newline, four underscores, a newline), and the fixed string
  \<^verbatim>\<open>No relevant information found.\<close> when no fragment was collected. The witness is the
  spec's example: the fragments A and B of one job give A, the delimiter, B; and a job
  whose search returns nothing gives the fixed string.
\<close>

theorem run_joins_fragments:
  assumes complete: "\<forall>k<length (process_ids t).
      get_processing_status_by_id (client t) (status_history t q (trace w) k) (process_ids t ! k) =
        Inr ''complete''"
    and answers: "\<forall>k<length (process_ids t). \<exists>texts.
      search_content (client t) (search_history t q (trace w) k) (bucket_id t) q 10 2 = Inr texts"
  shows "snd (snd (run t q w)) =
      Inr (if collected t q (trace w) = [] then ''No relevant information found.''
           else py_join (CHR 0x0A # ''____'' @ [CHR 0x0A]) (collected t q (trace w)))"
  using run_loop_complete[OF complete answers]
  by (simp add: run_def no_information_def delimiter_def)

theorem run_joins_fragments_witness:
  "snd (snd (run (ex_tool [''job'']) ''q'' (ex_world 100 3))) =
     Inr (''A'' @ [CHR 0x0A] @ ''____'' @ [CHR 0x0A] @ ''B'') \<and>
   snd (snd (run ex_silent_tool ''q'' (ex_world 100 3))) = Inr ''No relevant information found.''"
proof -
  let ?w = "ex_world 100 3"
  have fr: "fragments_of (ex_tool names) ''q'' h k = [''A'', ''B'']" for h k names
    by (simp add: fragments_of_def ex_tool_fields ex_client_search)
  have a: "snd (snd (run (ex_tool [''job'']) ''q'' ?w)) =
     Inr (''A'' @ [CHR 0x0A] @ ''____'' @ [CHR 0x0A] @ ''B'')"
  proof -
    let ?t = "ex_tool [''job'']"
    have complete: "\<forall>k<length (process_ids ?t).
        get_processing_status_by_id (client ?t) (status_history ?t ''q'' (trace ?w) k)
          (process_ids ?t ! k) = Inr ''complete''"
      by (simp add: ex_tool_fields ex_client_status)
    have answers: "\<forall>k<length (process_ids ?t). \<exists>texts.
        search_content (client ?t) (search_history ?t ''q'' (trace ?w) k) (bucket_id ?t) ''q'' 10 2 =
          Inr texts"
      by (simp add: ex_tool_fields ex_client_search)
    show ?thesis
      using run_joins_fragments[OF complete answers]
      by (simp add: collected_def ex_tool_fields fr)
  qed
  have b: "snd (snd (run ex_silent_tool ''q'' ?w)) = Inr ''No relevant information found.''"
  proof -
    let ?t = "ex_silent_tool"
    have complete: "\<forall>k<length (process_ids ?t).
        get_processing_status_by_id (client ?t) (status_history ?t ''q'' (trace ?w) k)
          (process_ids ?t ! k) = Inr ''complete''"
      by (simp add: ex_silent_tool_def ex_tool_def ex_client_def)
    have answers: "\<forall>k<length (process_ids ?t). \<exists>texts.
        search_content (client ?t) (search_history ?t ''q'' (trace ?w) k) (bucket_id ?t) ''q'' 10 2 =
          Inr texts"
      by (simp add: ex_silent_tool_def ex_tool_def ex_client_def)
    have none: "collected ?t ''q'' (trace ?w) = []"
      by (simp add: collected_def fragments_of_def ex_silent_tool_def ex_tool_def ex_client_def)
    show ?thesis
      using run_joins_fragments[OF complete answers] by (simp add: none)
  qed
  from a b show ?thesis by blast
qed

text \<open>
  Claim C8. If every status fetched during the query is \<^verbatim>\<open>complete\<close> and every search
  is answered, the loop runs to its end: the events of the query are, job after job, the status
  request of the job and one search request with the instance's bucket id, the query,
  result count 10 and verbosity 2, so there are as many search requests as jobs, all
  equal; and the collected list is the concatenation, in job order, of the fragments each
  search returned.
\<close>

theorem run_searches_once_per_job:
  assumes complete: "\<forall>k<length (process_ids t).
      get_processing_status_by_id (client t) (status_history t q (trace w) k) (process_ids t ! k) =
        Inr ''complete''"
    and answers: "\<forall>k<length (process_ids t). \<exists>texts.
      search_content (client t) (search_history t q (trace w) k) (bucket_id t) q 10 2 = Inr texts"
  shows "fst (snd (run t q w)) =
      w\<lparr>trace := trace w @ concat (map (job_events t q) (process_ids t))\<rparr> \<and>
    run_loop t q (process_ids t) [] w =
      (w\<lparr>trace := trace w @ concat (map (job_events t q) (process_ids t))\<rparr>,
       Inr (Done (concat (map (fragments_of t q (trace w)) [0..<length (process_ids t)])))) \<and>
    filter is_search (concat (map (job_events t q) (process_ids t))) =
      replicate (length (process_ids t)) (SearchContent (bucket_id t) q 10 2)"
  using run_loop_complete[OF complete answers]
  by (simp add: searches_of_jobs collected_def run_world)

theorem run_searches_once_per_job_witness:
  "trace (fst (snd (run (ex_tool [''p1'', ''p2'']) ''q'' (ex_world 100 3)))) =
     [GetProcessingStatus ''p1'', SearchContent 7 ''q'' 10 2,
      GetProcessingStatus ''p2'', SearchContent 7 ''q'' 10 2] \<and>
   run_loop (ex_tool [''p1'', ''p2'']) ''q'' [''p1'', ''p2''] [] (ex_world 100 3) =
     ((ex_world 100 3)\<lparr>trace :=
        [GetProcessingStatus ''p1'', SearchContent 7 ''q'' 10 2,
         GetProcessingStatus ''p2'', SearchContent 7 ''q'' 10 2]\<rparr>,
      Inr (Done [''A'', ''B'', ''A'', ''B''])) \<and>
   filter is_search
     [GetProcessingStatus ''p1'', SearchContent 7 ''q'' 10 2,
      GetProcessingStatus ''p2'', SearchContent 7 ''q'' 10 2] =
     [SearchContent 7 ''q'' 10 2, SearchContent 7 ''q'' 10 2]"
proof -
  let ?t = "ex_tool [''p1'', ''p2'']"
  let ?w = "ex_world 100 3"
  have complete: "\<forall>k<length (process_ids ?t).
      get_processing_status_by_id (client ?t) (status_history ?t ''q'' (trace ?w) k)
        (process_ids ?t ! k) = Inr ''complete''"
    by (auto simp: ex_tool_fields ex_client_status nth_Cons' )
  have answers: "\<forall>k<length (process_ids ?t). \<exists>texts.
      search_content (client ?t) (search_history ?t ''q'' (trace ?w) k) (bucket_id ?t) ''q'' 10 2 =
        Inr texts"
    by (simp add: ex_tool_fields ex_client_search)
  have fr: "fragments_of ?t ''q'' h k = [''A'', ''B'']" for h k
    by (simp add: fragments_of_def ex_tool_fields ex_client_search)
  show ?thesis
    using run_searches_once_per_job[OF complete answers]
    by (simp add: ex_tool_fields job_events_def fr ex_world_trace upt_rec)
qed

text \<open>
  Claim C6, as the code has it. Every query visits the jobs in recorded order and, for
  some \<open>k\<close>, gets through the first \<open>k\<close> of them: for each of these the status was
  fetched and was \<^verbatim>\<open>complete\<close>, and the search sent right after it, before the status
  of the next job is fetched, was answered. Then exactly one of three things holds. All
  jobs were gone through, and the requests of the query are status, search, status,
  search, \<dots>, one pair per job. Or the status fetched for job \<open>k\<close> was not
  \<^verbatim>\<open>complete\<close>, and that status request is the last request of the query: the statuses
  of later jobs are not fetched and nothing more is searched. Or the status of job \<open>k\<close>
  was \<^verbatim>\<open>complete\<close>, its search was sent and raised, and that search is the last request.
  In each case the requests of the query are given in full.
\<close>

theorem run_status_then_search_per_job:
  "\<exists>k\<le>length (process_ids t).
     (\<forall>j<k.
        get_processing_status_by_id (client t) (status_history t q (trace w) j)
          (process_ids t ! j) = Inr ''complete'' \<and>
        (\<exists>texts. search_content (client t) (search_history t q (trace w) j)
          (bucket_id t) q 10 2 = Inr texts)) \<and>
     (k = length (process_ids t) \<and>
        trace (fst (snd (run t q w))) =
          trace w @ concat (map (job_events t q) (process_ids t))
      \<or> k < length (process_ids t) \<and>
        get_processing_status_by_id (client t) (status_history t q (trace w) k)
          (process_ids t ! k) \<noteq> Inr ''complete'' \<and>
        trace (fst (snd (run t q w))) =
          status_history t q (trace w) k @ [GetProcessingStatus (process_ids t ! k)]
      \<or> k < length (process_ids t) \<and>
        get_processing_status_by_id (client t) (status_history t q (trace w) k)
          (process_ids t ! k) = Inr ''complete'' \<and>
        (\<exists>e. search_content (client t) (search_history t q (trace w) k)
          (bucket_id t) q 10 2 = Inl e) \<and>
        trace (fst (snd (run t q w))) =
          status_history t q (trace w) k @ job_events t q (process_ids t ! k))"
  using run_loop_exact[of "process_ids t" t w q "[]"]
  by (simp add: run_world status_history_def search_history_def)

theorem run_status_then_search_per_job_witness:
  "trace (fst (snd (run (ex_tool [''p1'', ''p2'']) ''q'' (ex_world 100 3)))) =
     [GetProcessingStatus ''p1'', SearchContent 7 ''q'' 10 2,
      GetProcessingStatus ''p2'', SearchContent 7 ''q'' 10 2] \<and>
   trace (fst (snd (run (ex_tool [''pending'', ''p2'']) ''q'' (ex_world 100 3)))) =
     [GetProcessingStatus ''pending'']"
proof -
  let ?w = "ex_world 100 3"
  have a: "trace (fst (snd (run (ex_tool [''p1'', ''p2'']) ''q'' ?w))) =
     [GetProcessingStatus ''p1'', SearchContent 7 ''q'' 10 2,
      GetProcessingStatus ''p2'', SearchContent 7 ''q'' 10 2]"
  proof -
    let ?t = "ex_tool [''p1'', ''p2'']"
    have st: "get_processing_status_by_id (client ?t) h (process_ids ?t ! k) = Inr ''complete''"
      if "k < length (process_ids ?t)" for k h
    proof -
      from that have "k = 0 \<or> k = 1" by (auto simp: ex_tool_fields)
      then show ?thesis by (auto simp: ex_tool_fields ex_client_status)
    qed
    have se: "search_content (client ?t) h (bucket_id ?t) ''q'' 10 2 \<noteq> Inl e" for h e
      by (simp add: ex_tool_fields ex_client_search)
    have "trace (fst (snd (run ?t ''q'' ?w))) =
          trace ?w @ concat (map (job_events ?t ''q'') (process_ids ?t))"
      using run_status_then_search_per_job[of ?t "''q''" ?w] st se by blast
    then show ?thesis by (simp add: ex_tool_fields ex_world_trace job_events_def)
  qed
  have b: "trace (fst (snd (run (ex_tool [''pending'', ''p2'']) ''q'' ?w))) =
     [GetProcessingStatus ''pending'']"
  proof -
    let ?t = "ex_tool [''pending'', ''p2'']"
    obtain k where k: "k \<le> length (process_ids ?t)" and
      passed: "\<forall>j<k.
        get_processing_status_by_id (client ?t) (status_history ?t ''q'' (trace ?w) j)
          (process_ids ?t ! j) = Inr ''complete'' \<and>
        (\<exists>texts. search_content (client ?t) (search_history ?t ''q'' (trace ?w) j)
          (bucket_id ?t) ''q'' 10 2 = Inr texts)" and
      ends: "k = length (process_ids ?t) \<and>
        trace (fst (snd (run ?t ''q'' ?w))) =
          trace ?w @ concat (map (job_events ?t ''q'') (process_ids ?t))
      \<or> k < length (process_ids ?t) \<and>
        get_processing_status_by_id (client ?t) (status_history ?t ''q'' (trace ?w) k)
          (process_ids ?t ! k) \<noteq> Inr ''complete'' \<and>
        trace (fst (snd (run ?t ''q'' ?w))) =
          status_history ?t ''q'' (trace ?w) k @ [GetProcessingStatus (process_ids ?t ! k)]
      \<or> k < length (process_ids ?t) \<and>
        get_processing_status_by_id (client ?t) (status_history ?t ''q'' (trace ?w) k)
          (process_ids ?t ! k) = Inr ''complete'' \<and>
        (\<exists>e. search_content (client ?t) (search_history ?t ''q'' (trace ?w) k)
          (bucket_id ?t) ''q'' 10 2 = Inl e) \<and>
        trace (fst (snd (run ?t ''q'' ?w))) =
          status_history ?t ''q'' (trace ?w) k @ job_events ?t ''q'' (process_ids ?t ! k)"
      using run_status_then_search_per_job[of ?t "''q''" ?w] by blast
    have k0: "k = 0"
    proof (rule ccontr)
      assume "k \<noteq> 0"
      then have "0 < k" by simp
      then have "get_processing_status_by_id (client ?t) (status_history ?t ''q'' (trace ?w) 0)
          (process_ids ?t ! 0) = Inr ''complete''"
        using passed by blast
      then show False by (simp add: ex_tool_fields ex_client_status)
    qed
    show ?thesis
      using ends unfolding k0
      by (simp add: ex_tool_fields ex_client_status ex_world_trace status_history_def)
  qed
  from a b show ?thesis by blast
qed

text \<open>
  Claim C6 as stated fails both ways. With two complete jobs the first search is sent
  before the status of the second job is fetched; with a first job that is not complete
  the status of the second job is never fetched.
\<close>

theorem run_search_before_all_statuses_counterexample:
  "\<not> spec_statuses_before_searches [''p1'', ''p2'']
        (trace (fst (snd (run (ex_tool [''p1'', ''p2'']) ''q'' (ex_world 100 3))))) \<and>
   \<not> spec_statuses_before_searches [''pending'', ''p2'']
        (trace (fst (snd (run (ex_tool [''pending'', ''p2'']) ''q'' (ex_world 100 3)))))"
  by (simp add: ex_run_two ex_run_pending spec_statuses_before_searches_def upt_rec)

end
